theory Spec2Isabelle
  imports Main "HOL-Library.Sublist"
begin

section \<open>The node tree\<close>

text \<open>
  The intermediate representation shared by the parsers and the serializer. A node of
  the sources is one object with the fields \<open>t, i, s, l, c, m, p, e, a, f, b, o\<close>, most
  of them unused for a given tag \<open>t\<close>; here every tag is a constructor that carries the
  fields its tag uses, in the order given in the comment of the constructor.

  A record node \<open>{k, v, s}\<close> keeps its parallel arrays \<open>k\<close> and \<open>v\<close> as one list of pairs
  (the generators fill both arrays in lockstep) next to the explicit size \<open>s\<close>, which the
  loops of the serializer run on. An \<open>Array\<close> node keeps its length \<open>l\<close> next to the sparse
  element list \<open>a\<close>; an absent element (a hole) is \<open>None\<close>.
\<close>

datatype feature =
    Feature_AggregateError | Feature_ArrayPrototypeValues | Feature_ArrowFunction
  | Feature_BigInt | Feature_BigIntTypedArray | Feature_ErrorPrototypeStack | Feature_Map
  | Feature_MethodShorthand | Feature_ObjectAssign | Feature_Promise | Feature_Set
  | Feature_Symbol | Feature_TypedArray | Feature_WebAPI

datatype seroval_constant =
    ConstTrue | ConstFalse | ConstUndefined | ConstNull
  | ConstNegativeZero | ConstInfinity | ConstNegativeInfinity | ConstNaN

datatype object_flag = FlagNone | FlagFrozen | FlagSealed | FlagNonExtensible

datatype error_constructor =
    ErrError | ErrEvalError | ErrRangeError | ErrReferenceError
  | ErrSyntaxError | ErrTypeError | ErrURIError

datatype record_key = SymbolIterator | Key string

datatype streaming_tag =
    PromiseConstructor | PromiseResolve | PromiseReject | ReadableStreamConstructor
  | ReadableStreamEnqueue | ReadableStreamError | ReadableStreamClose

datatype node =
    ConstantNode seroval_constant                  \<comment> \<open>s\<close>
  | NumberNode int                                 \<comment> \<open>s\<close>
  | StringNode string                              \<comment> \<open>s (escaped)\<close>
  | BigIntNode string                              \<comment> \<open>s\<close>
  | IndexedValueNode nat                           \<comment> \<open>i\<close>
  | ReferenceNode nat string                       \<comment> \<open>i, s\<close>
  | ArrayNode nat nat "node option list" object_flag
      \<comment> \<open>i, l, a, o\<close>
  | ObjectNode nat "(record_key \<times> node) list" nat object_flag
      \<comment> \<open>i, p.k and p.v, p.s, o\<close>
  | NullConstructorNode nat "(record_key \<times> node) list" nat object_flag
      \<comment> \<open>i, p.k and p.v, p.s, o\<close>
  | DateNode nat string                            \<comment> \<open>i, s\<close>
  | RegExpNode nat string string                   \<comment> \<open>i, c, m\<close>
  | SetNode nat nat "node list"                    \<comment> \<open>i, l, a\<close>
  | MapNode nat "(node \<times> node) list" nat          \<comment> \<open>i, e.k and e.v, e.s\<close>
  | ArrayBufferNode nat "nat list"                 \<comment> \<open>i, s\<close>
  | TypedArrayNode nat string node nat nat         \<comment> \<open>i, c, f, b, l\<close>
  | BigIntTypedArrayNode nat string node nat nat   \<comment> \<open>i, c, f, b, l\<close>
  | DataViewNode nat node nat nat                  \<comment> \<open>i, f, b, l\<close>
  | AggregateErrorNode nat string "((record_key \<times> node) list \<times> nat) option"
      \<comment> \<open>i, m, p\<close>
  | ErrorNode nat error_constructor string "((record_key \<times> node) list \<times> nat) option"
      \<comment> \<open>i, s, m, p\<close>
  | PromiseNode nat bool node                      \<comment> \<open>i, s (1 = resolved, 0 = rejected), f\<close>
  | WKSymbolNode nat nat                           \<comment> \<open>i, s\<close>
  | URLNode nat string                             \<comment> \<open>i, s\<close>
  | URLSearchParamsNode nat string                 \<comment> \<open>i, s\<close>
  | BlobNode nat string node                       \<comment> \<open>i, c, f\<close>
  | FileNode nat string string nat node            \<comment> \<open>i, c, m, b, f\<close>
  | HeadersNode nat "(record_key \<times> node) list" nat   \<comment> \<open>i, e.k and e.v, e.s\<close>
  | FormDataNode nat "(string \<times> node) list" nat      \<comment> \<open>i, e.k and e.v, e.s\<close>
  | BoxedNode nat node                             \<comment> \<open>i, f\<close>
  | RequestNode nat string node                    \<comment> \<open>i, s, f\<close>
  | ResponseNode nat node node                     \<comment> \<open>i, a[0], a[1]\<close>
  | EventNode nat string node                      \<comment> \<open>i, s, f\<close>
  | CustomEventNode nat string node                \<comment> \<open>i, s, f\<close>
  | DOMExceptionNode nat string string             \<comment> \<open>i, s, c\<close>
  | PluginNode nat string                          \<comment> \<open>i, c\<close>
  | StreamingNode streaming_tag nat                \<comment> \<open>t (one of the seven streaming-only tags), i\<close>

text \<open>
  The field \<open>i\<close> of a node: the reference id of a non-primitive, absent on primitives.
\<close>

fun node_id :: "node \<Rightarrow> nat option" where
  "node_id (ConstantNode _) = None"
| "node_id (NumberNode _) = None"
| "node_id (StringNode _) = None"
| "node_id (BigIntNode _) = None"
| "node_id (IndexedValueNode i) = Some i"
| "node_id (ReferenceNode i _) = Some i"
| "node_id (ArrayNode i _ _ _) = Some i"
| "node_id (ObjectNode i _ _ _) = Some i"
| "node_id (NullConstructorNode i _ _ _) = Some i"
| "node_id (DateNode i _) = Some i"
| "node_id (RegExpNode i _ _) = Some i"
| "node_id (SetNode i _ _) = Some i"
| "node_id (MapNode i _ _) = Some i"
| "node_id (ArrayBufferNode i _) = Some i"
| "node_id (TypedArrayNode i _ _ _ _) = Some i"
| "node_id (BigIntTypedArrayNode i _ _ _ _) = Some i"
| "node_id (DataViewNode i _ _ _) = Some i"
| "node_id (AggregateErrorNode i _ _) = Some i"
| "node_id (ErrorNode i _ _ _) = Some i"
| "node_id (PromiseNode i _ _) = Some i"
| "node_id (WKSymbolNode i _) = Some i"
| "node_id (URLNode i _) = Some i"
| "node_id (URLSearchParamsNode i _) = Some i"
| "node_id (BlobNode i _ _) = Some i"
| "node_id (FileNode i _ _ _ _) = Some i"
| "node_id (HeadersNode i _ _) = Some i"
| "node_id (FormDataNode i _ _) = Some i"
| "node_id (BoxedNode i _) = Some i"
| "node_id (RequestNode i _ _) = Some i"
| "node_id (ResponseNode i _ _) = Some i"
| "node_id (EventNode i _ _) = Some i"
| "node_id (CustomEventNode i _ _) = Some i"
| "node_id (DOMExceptionNode i _ _) = Some i"
| "node_id (PluginNode i _) = Some i"
| "node_id (StreamingNode _ i) = Some i"

text \<open>
  \<open>node.i\<close> read as a number. The serializer reads it only behind a test of the tag or
  of \<open>node.i != null\<close>, so the value chosen for an absent id is never used.
\<close>

definition node_i :: "node \<Rightarrow> nat" where
  "node_i n = (case node_id n of Some i \<Rightarrow> i | None \<Rightarrow> 0)"

fun is_IndexedValue :: "node \<Rightarrow> bool" where
  "is_IndexedValue (IndexedValueNode _) = True"
| "is_IndexedValue _ = False"

section \<open>Numbers as text\<close>

text \<open>
  \<open>'' + n\<close> for the integers the serializer prints itself (indices, lengths, offsets and
  bytes) and for a bigint: decimal digits, with a sign for negatives. The text of the
  payload of a Number node is not this function: the host prints a number in exponent
  notation from \<open>1e21\<close> on, and the serializer takes that text from the host (the field
  \<open>numberToString\<close> of the context below).
\<close>

definition digit_char :: "nat \<Rightarrow> char" where
  "digit_char d = ''0123456789'' ! d"

fun show_nat :: "nat \<Rightarrow> string" where
  "show_nat n = (if n < 10 then [digit_char n] else show_nat (n div 10) @ [digit_char (n mod 10)])"

declare show_nat.simps [simp del]

definition show_int :: "int \<Rightarrow> string" where
  "show_int z = (if z < 0 then ''-'' @ show_nat (nat (- z)) else show_nat (nat z))"

text \<open>
  The numbers of the host that the model holds: the four special doubles that
  \<open>createNumberNode\<close> tells apart and, of the finite ones, the integers. \<open>number_ge_zero\<close>
  is the host's \<open>check >= 0\<close> and \<open>number_is_NaN\<close> its \<open>check !== check\<close>.
\<close>

datatype jsnumber = NaN | PositiveInfinity | NegativeInfinity | NegativeZero | Finite int

fun number_ge_zero :: "jsnumber \<Rightarrow> bool" where
  "number_ge_zero NaN = False"
| "number_ge_zero PositiveInfinity = True"
| "number_ge_zero NegativeInfinity = False"
| "number_ge_zero NegativeZero = True"
| "number_ge_zero (Finite z) = (0 \<le> z)"

fun number_is_NaN :: "jsnumber \<Rightarrow> bool" where
  "number_is_NaN NaN = True"
| "number_is_NaN _ = False"

section \<open>The serializer context\<close>

text \<open>
  \<open>BaseSerializerContext\<close> of \<open>serializer-context.ts\<close>. Its mutable fields are the
  record \<open>sstate\<close>; state passing makes every mutation explicit. What the class takes
  from outside the sources is the record \<open>ctx\<close>, fixed during a serialization: the
  feature matrix, the name of a reference id (what the subclass's \<open>getRefParam\<close>
  returns), the imported constants \<open>REFERENCES_KEY\<close>, \<open>ERROR_CONSTRUCTOR_STRING\<close> and
  \<open>SYMBOL_STRING\<close>, the helpers \<open>resolveAssignments\<close> and \<open>isValidIdentifier\<close> (of
  \<open>shared.ts\<close>), and two conversions of the host: \<open>Number(key)\<close> (\<open>toNumber\<close>) and the text
  \<open>'' + node.s\<close> of a number (\<open>numberToString\<close>).
  The context is one constructed without plugins.
\<close>

datatype assignment_type = AssignIndex | AssignAdd | AssignSet

datatype assignment = Assignment assignment_type string "string option" string
  \<comment> \<open>t, s, k, v\<close>

datatype js_error =
    UnsupportedTypeError | ErrorMessage string | MissingPlugin string | TypeError
  | AbstractMethod | NoSuchObject | OutOfFuel

record ctx =
  features :: "feature set"
  refName :: "nat \<Rightarrow> string"
  REFERENCES_KEY :: string
  ERROR_CONSTRUCTOR_STRING :: "error_constructor \<Rightarrow> string"
  SYMBOL_STRING :: "nat \<Rightarrow> string"
  resolveAssignments :: "assignment list \<Rightarrow> string option"
  isValidIdentifier :: "string \<Rightarrow> bool"
  toNumber :: "string \<Rightarrow> jsnumber"
  numberToString :: "int \<Rightarrow> string"

text \<open>
  The key test of \<open>serializeProperty\<close> and \<open>serializeAssignment\<close>:
  \<^verbatim>\<open>const check = Number(key);
  const isIdentifier = check >= 0 || check !== check || isValidIdentifier(key);\<close>
\<close>

definition isIdentifierKey :: "ctx \<Rightarrow> string \<Rightarrow> bool" where
  "isIdentifierKey c key =
     (let check = toNumber c key
      in number_ge_zero check \<or> number_is_NaN check \<or> isValidIdentifier c key)"

record sstate =
  stack :: "nat list"
  flags :: "(object_flag \<times> string) list"
  assignments :: "assignment list"
  marked :: "nat set"
  deferred :: "nat \<rightharpoonup> string"

type_synonym 'a result = "js_error + ('a \<times> sstate)"

type_synonym serializer = "node \<Rightarrow> sstate \<Rightarrow> string result"

text \<open>
  Modelled from the spec: the table \<open>CONSTANT_STRING\<close> of \<open>constants.ts\<close>, which is not
  part of the sources. The spec gives the text of \<open>Infinity\<close> (\<open>serialize(1/0) === "1/0"\<close>)
  and says that the constants are emitted as literal forms; the other entries follow
  the same strategy.
\<close>

fun CONSTANT_STRING :: "seroval_constant \<Rightarrow> string" where
  "CONSTANT_STRING ConstTrue = ''!0''"
| "CONSTANT_STRING ConstFalse = ''!1''"
| "CONSTANT_STRING ConstUndefined = ''void 0''"
| "CONSTANT_STRING ConstNull = ''null''"
| "CONSTANT_STRING ConstNegativeZero = ''-0''"
| "CONSTANT_STRING ConstInfinity = ''1/0''"
| "CONSTANT_STRING ConstNegativeInfinity = ''-1/0''"
| "CONSTANT_STRING ConstNaN = ''0/0''"

definition markRef :: "nat \<Rightarrow> sstate \<Rightarrow> sstate" where
  "markRef i s = s\<lparr>marked := insert i (marked s)\<rparr>"

definition isMarked :: "sstate \<Rightarrow> nat \<Rightarrow> bool" where
  "isMarked s i = (i \<in> marked s)"

text \<open>
  Modelled from the spec: \<open>getRefParam\<close> and \<open>assignIndexedValue\<close> are abstract in
  \<open>BaseSerializerContext\<close> and the subclasses that implement them are not part of the
  sources. By 4.5.1 the naming function returns the stable name of the id and records
  that the id needs a name (marks it); by 4.5.2 \<open>assignIndexedValue(id, expr)\<close> is the
  bare \<open>expr\<close> if the id is not marked and \<open>name=expr\<close> if it is.
\<close>

definition getRefParam :: "ctx \<Rightarrow> nat \<Rightarrow> sstate \<Rightarrow> string \<times> sstate" where
  "getRefParam c i s = (refName c i, markRef i s)"

definition assignIndexedValue :: "ctx \<Rightarrow> nat \<Rightarrow> string \<Rightarrow> sstate \<Rightarrow> string" where
  "assignIndexedValue c i v s = (if isMarked s i then refName c i @ ''='' @ v else v)"

definition pushObjectFlag :: "ctx \<Rightarrow> object_flag \<Rightarrow> nat \<Rightarrow> sstate \<Rightarrow> sstate" where
  "pushObjectFlag c flag i s =
     (if flag \<noteq> FlagNone then
        (let s1 = markRef i s;
             (name, s2) = getRefParam c i s1
         in s2\<lparr>flags := flags s2 @ [(flag, name)]\<rparr>)
      else s)"

definition createAssignment :: "string \<Rightarrow> string \<Rightarrow> sstate \<Rightarrow> sstate" where
  "createAssignment source v s =
     s\<lparr>assignments := assignments s @ [Assignment AssignIndex source None v]\<rparr>"

definition createAddAssignment :: "ctx \<Rightarrow> nat \<Rightarrow> string \<Rightarrow> sstate \<Rightarrow> sstate" where
  "createAddAssignment c r v s =
     (let (name, s1) = getRefParam c r s
      in s1\<lparr>assignments := assignments s1 @ [Assignment AssignAdd name None v]\<rparr>)"

definition createSetAssignment :: "ctx \<Rightarrow> nat \<Rightarrow> string \<Rightarrow> string \<Rightarrow> sstate \<Rightarrow> sstate" where
  "createSetAssignment c r key v s =
     (let (name, s1) = getRefParam c r s
      in s1\<lparr>assignments := assignments s1 @ [Assignment AssignSet name (Some key) v]\<rparr>)"

definition createArrayAssign :: "ctx \<Rightarrow> nat \<Rightarrow> string \<Rightarrow> string \<Rightarrow> sstate \<Rightarrow> sstate" where
  "createArrayAssign c r index v s =
     (let (name, s1) = getRefParam c r s
      in createAssignment (name @ ''['' @ index @ '']'') v s1)"

definition createObjectAssign :: "ctx \<Rightarrow> nat \<Rightarrow> string \<Rightarrow> string \<Rightarrow> sstate \<Rightarrow> sstate" where
  "createObjectAssign c r key v s =
     (let s1 = markRef r s;
          (name, s2) = getRefParam c r s1
      in createAssignment (name @ ''.'' @ key) v s2)"

definition defer_value :: "nat \<Rightarrow> string \<Rightarrow> sstate \<Rightarrow> sstate" where
  \<comment> \<open>the method \<open>defer\<close>\<close>
  "defer_value i v s = s\<lparr>deferred := (deferred s)(i \<mapsto> v)\<rparr>"

definition isIndexedValueInStack :: "sstate \<Rightarrow> node \<Rightarrow> bool" where
  "isIndexedValueInStack s n = (is_IndexedValue n \<and> node_i n \<in> set (stack s))"

definition stack_push :: "nat \<Rightarrow> sstate \<Rightarrow> sstate" where
  \<comment> \<open>\<open>this.stack.push(id)\<close>\<close>
  "stack_push i s = s\<lparr>stack := stack s @ [i]\<rparr>"

definition stack_pop :: "sstate \<Rightarrow> sstate" where
  \<comment> \<open>\<open>this.stack.pop()\<close>: drops the last element, and does nothing on an empty array\<close>
  "stack_pop s = s\<lparr>stack := butlast (stack s)\<rparr>"

definition getIterableAccess :: "ctx \<Rightarrow> string" where
  "getIterableAccess c =
     (if Feature_ArrayPrototypeValues \<in> features c then ''.values()'' else ''[Symbol.iterator]()'')"

section \<open>The serializer\<close>

text \<open>
  Every method of the class that calls \<open>this.serialize\<close> takes the serializer as its
  argument \<open>ser\<close>; \<open>serialize\<close> below passes itself. A method returns its string and the
  state it leaves; a \<open>throw\<close> is \<open>Inl\<close>.
\<close>

definition serializeReference :: "ctx \<Rightarrow> nat \<Rightarrow> string \<Rightarrow> sstate \<Rightarrow> string" where
  "serializeReference c i r s =
     assignIndexedValue c i (REFERENCES_KEY c @ ''.get(\"'' @ r @ ''\")'') s"

definition serializeIterable :: "ctx \<Rightarrow> serializer \<Rightarrow> node \<Rightarrow> sstate \<Rightarrow> string result" where
  "serializeIterable c ser n s =
     (let parent = stack s in
      case ser n (s\<lparr>stack := []\<rparr>) of
        Inl e \<Rightarrow> Inl e
      | Inr (r, s1) \<Rightarrow>
          (let serialized = r @ getIterableAccess c;
               s2 = s1\<lparr>stack := parent\<rparr>
           in Inr (if Feature_ArrowFunction \<in> features c
                     then ''[Symbol.iterator]:()=>'' @ serialized
                   else if Feature_MethodShorthand \<in> features c
                     then ''[Symbol.iterator](){return '' @ serialized @ ''}''
                   else ''[Symbol.iterator]:function(){return '' @ serialized @ ''}'', s2)))"

definition serializeArrayItem ::
  "ctx \<Rightarrow> serializer \<Rightarrow> nat \<Rightarrow> node option \<Rightarrow> nat \<Rightarrow> sstate \<Rightarrow> string result" where
  "serializeArrayItem c ser i item index s =
     (case item of
        None \<Rightarrow> Inr ('''', s)
      | Some n \<Rightarrow>
          if isIndexedValueInStack s n then
            (let s1 = markRef i s;
                 (r, s2) = getRefParam c (node_i n) s1
             in Inr ('''', createArrayAssign c i (show_nat index) r s2))
          else ser n s)"

text \<open>
  The loop of \<open>serializeArray\<close> from index 1 on: \<open>xs\<close> is the rest of \<open>node.a\<close>, \<open>index\<close>
  the loop variable, \<open>n\<close> what is left of \<open>node.l\<close>. Reading the list past its end gives
  \<open>undefined\<close>, which \<open>serializeArrayItem\<close> takes for a hole.
\<close>

fun serializeArrayLoop ::
  "ctx \<Rightarrow> serializer \<Rightarrow> nat \<Rightarrow> node option list \<Rightarrow> nat \<Rightarrow> nat \<Rightarrow> string \<Rightarrow> bool \<Rightarrow> sstate
     \<Rightarrow> (string \<times> bool) result" where
  "serializeArrayLoop c ser i xs index 0 vals isHoley s = Inr ((vals, isHoley), s)"
| "serializeArrayLoop c ser i [] index (Suc n) vals isHoley s =
     (case serializeArrayItem c ser i None index s of
        Inl e \<Rightarrow> Inl e
      | Inr (item, s1) \<Rightarrow>
          serializeArrayLoop c ser i [] (index + 1) n (vals @ '','' @ item) (item = '''') s1)"
| "serializeArrayLoop c ser i (x # xs) index (Suc n) vals isHoley s =
     (case serializeArrayItem c ser i x index s of
        Inl e \<Rightarrow> Inl e
      | Inr (item, s1) \<Rightarrow>
          serializeArrayLoop c ser i xs (index + 1) n (vals @ '','' @ item) (item = '''') s1)"

definition serializeArray ::
  "ctx \<Rightarrow> serializer \<Rightarrow> nat \<Rightarrow> nat \<Rightarrow> node option list \<Rightarrow> object_flag \<Rightarrow> sstate
     \<Rightarrow> string result" where
  "serializeArray c ser i l a flag s =
     (if l \<noteq> 0 then
        (let s0 = stack_push i s in
         case serializeArrayItem c ser i (case a of [] \<Rightarrow> None | x # _ \<Rightarrow> x) 0 s0 of
           Inl e \<Rightarrow> Inl e
         | Inr (vals, s1) \<Rightarrow>
            (case serializeArrayLoop c ser i (tl a) 1 (l - 1) vals (vals = '''') s1 of
               Inl e \<Rightarrow> Inl e
             | Inr ((vals', isHoley), s2) \<Rightarrow>
                 (let s3 = stack_pop s2;
                      s4 = pushObjectFlag c flag i s3
                  in Inr (assignIndexedValue c i
                            (''['' @ vals' @ (if isHoley then '',]'' else '']'')) s4, s4))))
      else Inr (assignIndexedValue c i ''[]'' s, s))"

definition quoted :: "string \<Rightarrow> string" where
  \<comment> \<open>\<open>'"' + key + '"'\<close>\<close>
  "quoted k = ''\"'' @ k @ ''\"''"

definition serializeProperty ::
  "ctx \<Rightarrow> serializer \<Rightarrow> nat \<Rightarrow> record_key \<Rightarrow> node \<Rightarrow> sstate \<Rightarrow> string result" where
  "serializeProperty c ser i key val s =
     (case key of
        SymbolIterator \<Rightarrow> serializeIterable c ser val s
      | Key k \<Rightarrow>
          (let isIdentifier = isIdentifierKey c k in
           if isIndexedValueInStack s val then
             (let (refParam, s1) = getRefParam c (node_i val) s;
                  s2 = markRef i s1
              in Inr ('''', if isIdentifier then createObjectAssign c i k refParam s2
                            else createArrayAssign c i (quoted k) refParam s2))
           else
             (case ser val s of
                Inl e \<Rightarrow> Inl e
              | Inr (r, s1) \<Rightarrow>
                  Inr ((if isIdentifier then k else quoted k) @ '':'' @ r, s1))))"

text \<open>
  The loop shared, word for word, by \<open>serializeProperties\<close>, \<open>serializeSet\<close> and
  \<open>serializeMap\<close>:
  \<^verbatim>\<open>for (let i = 1, item = result; i < size; i++)
    result += (item && ',') + (item = f(xs[i]));\<close>
  \<open>xs\<close> is the rest of the entries and \<open>n\<close> what is left of the size. Reading an entry
  past the end gives \<open>undefined\<close>, and each of the three item functions throws a
  TypeError when it reads the tag of that.
\<close>

fun serializeItemsLoop ::
  "('a \<Rightarrow> sstate \<Rightarrow> string result) \<Rightarrow> 'a list \<Rightarrow> nat \<Rightarrow> string \<Rightarrow> string \<Rightarrow> sstate
     \<Rightarrow> string result" where
  "serializeItemsLoop f xs 0 res item s = Inr (res, s)"
| "serializeItemsLoop f [] (Suc n) res item s = Inl TypeError"
| "serializeItemsLoop f (x # xs) (Suc n) res item s =
     (case f x s of
        Inl e \<Rightarrow> Inl e
      | Inr (item', s1) \<Rightarrow>
          serializeItemsLoop f xs n (res @ (if item = '''' then '''' else '','') @ item') item' s1)"

text \<open>The first item and the loop after it, between the push and the pop of the id.\<close>

definition serializeItems ::
  "('a \<Rightarrow> sstate \<Rightarrow> string result) \<Rightarrow> nat \<Rightarrow> 'a list \<Rightarrow> nat \<Rightarrow> sstate \<Rightarrow> string result" where
  "serializeItems f i xs len s =
     (let s0 = stack_push i s in
      case xs of
        [] \<Rightarrow> Inl TypeError
      | x # rest \<Rightarrow>
          (case f x s0 of
             Inl e \<Rightarrow> Inl e
           | Inr (res, s1) \<Rightarrow>
               (case serializeItemsLoop f rest (len - 1) res res s1 of
                  Inl e \<Rightarrow> Inl e
                | Inr (res', s2) \<Rightarrow> Inr (res', stack_pop s2))))"

definition serializeProperties ::
  "ctx \<Rightarrow> serializer \<Rightarrow> nat \<Rightarrow> (record_key \<times> node) list \<Rightarrow> nat \<Rightarrow> sstate \<Rightarrow> string result" where
  "serializeProperties c ser sourceID kvs len s =
     (if len \<noteq> 0 then
        (case serializeItems (\<lambda>(k, v). serializeProperty c ser sourceID k v) sourceID kvs len s of
           Inl e \<Rightarrow> Inl e
         | Inr (res, s1) \<Rightarrow> Inr (''{'' @ res @ ''}'', s1))
      else Inr (''{}'', s))"

definition serializeObject ::
  "ctx \<Rightarrow> serializer \<Rightarrow> nat \<Rightarrow> (record_key \<times> node) list \<Rightarrow> nat \<Rightarrow> object_flag \<Rightarrow> sstate
     \<Rightarrow> string result" where
  "serializeObject c ser i kvs len flag s =
     (let s1 = pushObjectFlag c flag i s in
      case serializeProperties c ser i kvs len s1 of
        Inl e \<Rightarrow> Inl e
      | Inr (r, s2) \<Rightarrow> Inr (assignIndexedValue c i r s2, s2))"

definition serializeWithObjectAssign ::
  "ctx \<Rightarrow> serializer \<Rightarrow> (record_key \<times> node) list \<Rightarrow> nat \<Rightarrow> nat \<Rightarrow> string \<Rightarrow> sstate
     \<Rightarrow> string result" where
  "serializeWithObjectAssign c ser kvs len i serialized s =
     (case serializeProperties c ser i kvs len s of
        Inl e \<Rightarrow> Inl e
      | Inr (fs, s1) \<Rightarrow>
          Inr (if fs \<noteq> ''{}'' then ''Object.assign('' @ serialized @ '','' @ fs @ '')''
               else serialized, s1))"

text \<open>
  \<open>serializeAssignment\<close> pushes onto the local array \<open>mainAssignments\<close> by swapping it in
  for \<open>this.assignments\<close>; the array it leaves is returned next to the state.
\<close>

definition serializeAssignment ::
  "ctx \<Rightarrow> serializer \<Rightarrow> nat \<Rightarrow> assignment list \<Rightarrow> record_key \<Rightarrow> node \<Rightarrow> sstate
     \<Rightarrow> (assignment list) result" where
  "serializeAssignment c ser sourceID mainAssignments key val s =
     (case key of
        SymbolIterator \<Rightarrow>
          (let parent = stack s in
           case ser val (s\<lparr>stack := []\<rparr>) of
             Inl e \<Rightarrow> Inl e
           | Inr (r, s1) \<Rightarrow>
               (let serialized = r @ getIterableAccess c;
                    s2 = s1\<lparr>stack := parent\<rparr>;
                    parentAssignment = assignments s2;
                    s3 = s2\<lparr>assignments := mainAssignments\<rparr>;
                    s4 = createArrayAssign c sourceID ''Symbol.iterator''
                           (if Feature_ArrowFunction \<in> features c then ''()=>'' @ serialized
                            else ''function(){return '' @ serialized @ ''}'') s3
                in Inr (assignments s4, s4\<lparr>assignments := parentAssignment\<rparr>)))
      | Key k \<Rightarrow>
          (case ser val s of
             Inl e \<Rightarrow> Inl e
           | Inr (serialized, s1) \<Rightarrow>
               (let isIdentifier = isIdentifierKey c k in
                if isIndexedValueInStack s1 val then
                  Inr (mainAssignments,
                       if isIdentifier then createObjectAssign c sourceID k serialized s1
                       else createArrayAssign c sourceID (quoted k) serialized s1)
                else
                  (let parentAssignment = assignments s1;
                       s2 = s1\<lparr>assignments := mainAssignments\<rparr>;
                       s3 = (if isIdentifier then createObjectAssign c sourceID k serialized s2
                             else createArrayAssign c sourceID (quoted k) serialized s2)
                   in Inr (assignments s3, s3\<lparr>assignments := parentAssignment\<rparr>)))))"

fun serializeAssignmentsLoop ::
  "ctx \<Rightarrow> serializer \<Rightarrow> nat \<Rightarrow> (record_key \<times> node) list \<Rightarrow> nat \<Rightarrow> assignment list \<Rightarrow> sstate
     \<Rightarrow> (assignment list) result" where
  "serializeAssignmentsLoop c ser sourceID kvs 0 mainAssignments s = Inr (mainAssignments, s)"
| "serializeAssignmentsLoop c ser sourceID [] (Suc n) mainAssignments s = Inl TypeError"
| "serializeAssignmentsLoop c ser sourceID ((k, v) # kvs) (Suc n) mainAssignments s =
     (case serializeAssignment c ser sourceID mainAssignments k v s of
        Inl e \<Rightarrow> Inl e
      | Inr (mainAssignments', s1) \<Rightarrow>
          serializeAssignmentsLoop c ser sourceID kvs n mainAssignments' s1)"

definition serializeAssignments ::
  "ctx \<Rightarrow> serializer \<Rightarrow> nat \<Rightarrow> (record_key \<times> node) list \<Rightarrow> nat \<Rightarrow> sstate
     \<Rightarrow> (string option) result" where
  "serializeAssignments c ser sourceID kvs len s =
     (if len \<noteq> 0 then
        (case serializeAssignmentsLoop c ser sourceID kvs len [] (stack_push sourceID s) of
           Inl e \<Rightarrow> Inl e
         | Inr (mainAssignments, s1) \<Rightarrow>
             Inr (resolveAssignments c mainAssignments, stack_pop s1))
      else Inr (None, s))"

definition serializeDictionary ::
  "ctx \<Rightarrow> serializer \<Rightarrow> nat \<Rightarrow> ((record_key \<times> node) list \<times> nat) option \<Rightarrow> string \<Rightarrow> sstate
     \<Rightarrow> string result" where
  "serializeDictionary c ser i p init s =
     (case p of
        None \<Rightarrow> Inr (assignIndexedValue c i init s, s)
      | Some (kvs, len) \<Rightarrow>
          if Feature_ObjectAssign \<in> features c then
            (case serializeWithObjectAssign c ser kvs len i init s of
               Inl e \<Rightarrow> Inl e
             | Inr (init', s1) \<Rightarrow> Inr (assignIndexedValue c i init' s1, s1))
          else
            (case serializeAssignments c ser i kvs len (markRef i s) of
               Inl e \<Rightarrow> Inl e
             | Inr (asg, s1) \<Rightarrow>
                 (case asg of
                    None \<Rightarrow> Inr (assignIndexedValue c i init s1, s1)
                  | Some a \<Rightarrow>
                      if a \<noteq> '''' then
                        (let assigned = assignIndexedValue c i init s1;
                             (name, s2) = getRefParam c i s1
                         in Inr (''('' @ assigned @ '','' @ a @ name @ '')'', s2))
                      else Inr (assignIndexedValue c i init s1, s1))))"

definition serializeNullConstructor ::
  "ctx \<Rightarrow> serializer \<Rightarrow> nat \<Rightarrow> (record_key \<times> node) list \<Rightarrow> nat \<Rightarrow> object_flag \<Rightarrow> sstate
     \<Rightarrow> string result" where
  "serializeNullConstructor c ser i kvs len flag s =
     serializeDictionary c ser i (Some (kvs, len)) ''Object.create(null)''
       (pushObjectFlag c flag i s)"

definition serializeSetItem :: "ctx \<Rightarrow> serializer \<Rightarrow> nat \<Rightarrow> node \<Rightarrow> sstate \<Rightarrow> string result" where
  "serializeSetItem c ser i item s =
     (if isIndexedValueInStack s item then
        (let s1 = markRef i s;
             (r, s2) = getRefParam c (node_i item) s1
         in Inr ('''', createAddAssignment c i r s2))
      else ser item s)"

definition serializeSet ::
  "ctx \<Rightarrow> serializer \<Rightarrow> nat \<Rightarrow> nat \<Rightarrow> node list \<Rightarrow> sstate \<Rightarrow> string result" where
  "serializeSet c ser i len a s =
     (if len \<noteq> 0 then
        (case serializeItems (serializeSetItem c ser i) i a len s of
           Inl e \<Rightarrow> Inl e
         | Inr (res, s1) \<Rightarrow>
             Inr (assignIndexedValue c i
                    (if res \<noteq> '''' then ''new Set(['' @ res @ ''])'' else ''new Set'') s1, s1))
      else Inr (assignIndexedValue c i ''new Set'' s, s))"

definition serializeMapEntry ::
  "ctx \<Rightarrow> serializer \<Rightarrow> nat \<Rightarrow> node \<Rightarrow> node \<Rightarrow> sstate \<Rightarrow> string result" where
  "serializeMapEntry c ser i key val s =
     (if isIndexedValueInStack s key then
        (let (keyRef, s1) = getRefParam c i s;
             s2 = markRef i s1
         in if isIndexedValueInStack s2 val then
              (let (valueRef, s3) = getRefParam c (node_i val) s2
               in Inr ('''', createSetAssignment c i keyRef valueRef s3))
            else
              (let parent = stack s2;
                   s3 = s2\<lparr>stack := []\<rparr>
               in if \<not> is_IndexedValue val \<and> node_id val \<noteq> None \<and> isMarked s3 (node_i val) then
                    (case ser val s3 of
                       Inl e \<Rightarrow> Inl e
                     | Inr (r, s4) \<Rightarrow>
                         (let s5 = defer_value (node_i val) r s4;
                              (valueRef, s6) = getRefParam c (node_i val) s5;
                              s7 = createSetAssignment c i keyRef valueRef s6
                          in Inr ('''', s7\<lparr>stack := parent\<rparr>)))
                  else
                    (case ser val s3 of
                       Inl e \<Rightarrow> Inl e
                     | Inr (r, s4) \<Rightarrow>
                         Inr ('''', (createSetAssignment c i keyRef r s4)\<lparr>stack := parent\<rparr>))))
      else if isIndexedValueInStack s val then
        (let (valueRef, s1) = getRefParam c (node_i val) s;
             s2 = markRef i s1;
             parent = stack s2;
             s3 = s2\<lparr>stack := []\<rparr>
         in if \<not> is_IndexedValue val \<and> node_id val \<noteq> None \<and> isMarked s3 (node_i val) then
              (case ser val s3 of
                 Inl e \<Rightarrow> Inl e
               | Inr (r, s4) \<Rightarrow>
                   (let s5 = defer_value (node_i val) r s4;
                        (keyRef, s6) = getRefParam c (node_i val) s5;
                        s7 = createSetAssignment c i keyRef valueRef s6
                    in Inr ('''', s7\<lparr>stack := parent\<rparr>)))
            else
              (case ser key s3 of
                 Inl e \<Rightarrow> Inl e
               | Inr (r, s4) \<Rightarrow>
                   Inr ('''', (createSetAssignment c i r valueRef s4)\<lparr>stack := parent\<rparr>)))
      else
        (case ser key s of
           Inl e \<Rightarrow> Inl e
         | Inr (k, s1) \<Rightarrow>
             (case ser val s1 of
                Inl e \<Rightarrow> Inl e
              | Inr (v, s2) \<Rightarrow> Inr (''['' @ k @ '','' @ v @ '']'', s2))))"

definition serializeMap ::
  "ctx \<Rightarrow> serializer \<Rightarrow> nat \<Rightarrow> (node \<times> node) list \<Rightarrow> nat \<Rightarrow> sstate \<Rightarrow> string result" where
  "serializeMap c ser i kvs len s =
     (if len \<noteq> 0 then
        (case serializeItems (\<lambda>(k, v). serializeMapEntry c ser i k v) i kvs len s of
           Inl e \<Rightarrow> Inl e
         | Inr (res, s1) \<Rightarrow>
             Inr (assignIndexedValue c i
                    (if res \<noteq> '''' then ''new Map(['' @ res @ ''])'' else ''new Map'') s1, s1))
      else Inr (assignIndexedValue c i ''new Map'' s, s))"

fun serializeBytes :: "nat list \<Rightarrow> string" where
  \<comment> \<open>the loop of \<open>serializeArrayBuffer\<close>: the bytes, separated by commas\<close>
  "serializeBytes [] = ''''"
| "serializeBytes [b] = show_nat b"
| "serializeBytes (b # bs) = show_nat b @ '','' @ serializeBytes bs"

definition serializeArrayBuffer :: "ctx \<Rightarrow> nat \<Rightarrow> nat list \<Rightarrow> sstate \<Rightarrow> string" where
  "serializeArrayBuffer c i buffer s =
     assignIndexedValue c i
       (''new Uint8Array('' @ (if buffer \<noteq> [] then ''['' @ serializeBytes buffer @ '']'' else '''')
          @ '').buffer'') s"

definition serializePromise ::
  "ctx \<Rightarrow> serializer \<Rightarrow> nat \<Rightarrow> bool \<Rightarrow> node \<Rightarrow> sstate \<Rightarrow> string result" where
  "serializePromise c ser i resolved fulfilled s =
     (let constructor = (if resolved then ''Promise.resolve'' else ''Promise.reject'') in
      if isIndexedValueInStack s fulfilled then
        (let (r, s1) = getRefParam c (node_i fulfilled) s;
             serialized =
               (if Feature_ArrowFunction \<in> features c then
                  (if resolved then constructor @ ''().then(()=>'' @ r @ '')''
                   else constructor @ ''().catch(()=>{throw '' @ r @ ''})'')
                else if resolved then constructor @ ''().then(function(){return '' @ r @ ''})''
                else constructor @ ''().catch(function(){throw '' @ r @ ''})'')
         in Inr (assignIndexedValue c i serialized s1, s1))
      else
        (case ser fulfilled (stack_push i s) of
           Inl e \<Rightarrow> Inl e
         | Inr (r, s1) \<Rightarrow>
             (let s2 = stack_pop s1
              in Inr (assignIndexedValue c i (constructor @ ''('' @ r @ '')'') s2, s2))))"

definition serializeFormDataEntry ::
  "ctx \<Rightarrow> serializer \<Rightarrow> nat \<Rightarrow> string \<Rightarrow> node \<Rightarrow> sstate \<Rightarrow> string result" where
  "serializeFormDataEntry c ser i key val s =
     (let (name, s1) = getRefParam c i s in
      case ser val s1 of
        Inl e \<Rightarrow> Inl e
      | Inr (r, s2) \<Rightarrow> Inr (name @ ''.append(\"'' @ key @ ''\",'' @ r @ '')'', s2))"

fun serializeFormDataLoop ::
  "ctx \<Rightarrow> serializer \<Rightarrow> nat \<Rightarrow> (string \<times> node) list \<Rightarrow> nat \<Rightarrow> string \<Rightarrow> sstate
     \<Rightarrow> string result" where
  "serializeFormDataLoop c ser i kvs 0 res s = Inr (res, s)"
| "serializeFormDataLoop c ser i [] (Suc n) res s = Inl TypeError"
| "serializeFormDataLoop c ser i ((k, v) # kvs) (Suc n) res s =
     (case serializeFormDataEntry c ser i k v s of
        Inl e \<Rightarrow> Inl e
      | Inr (r, s1) \<Rightarrow> serializeFormDataLoop c ser i kvs n (res @ '','' @ r) s1)"

definition serializeFormDataEntries ::
  "ctx \<Rightarrow> serializer \<Rightarrow> nat \<Rightarrow> (string \<times> node) list \<Rightarrow> nat \<Rightarrow> sstate \<Rightarrow> string result" where
  "serializeFormDataEntries c ser i kvs len s =
     (case kvs of
        [] \<Rightarrow> Inl TypeError
      | (k, v) # rest \<Rightarrow>
          (case serializeFormDataEntry c ser i k v s of
             Inl e \<Rightarrow> Inl e
           | Inr (res, s1) \<Rightarrow> serializeFormDataLoop c ser i rest (len - 1) res s1))"

definition serializeFormData ::
  "ctx \<Rightarrow> serializer \<Rightarrow> nat \<Rightarrow> (string \<times> node) list \<Rightarrow> nat \<Rightarrow> sstate \<Rightarrow> string result" where
  "serializeFormData c ser i kvs len s =
     (let s1 = (if len \<noteq> 0 then markRef i s else s);
          res = assignIndexedValue c i ''new FormData()'' s1
      in if len \<noteq> 0 then
           (case serializeFormDataEntries c ser i kvs len s1 of
              Inl e \<Rightarrow> Inl e
            | Inr (entries, s2) \<Rightarrow>
                (let (name, s3) = getRefParam c i s2
                 in Inr (''('' @ res @ '','' @ (if entries \<noteq> '''' then entries @ '','' else '''')
                           @ name @ '')'', s3)))
         else Inr (res, s1))"

text \<open>
  Each method calls the serializer it is given only on nodes below the node it works
  on. The congruence rules say so; the definition of \<open>serialize\<close> needs them to see that
  its recursion goes down the tree.
\<close>

lemma serializeIterable_cong:
  assumes "\<And>st. ser n st = ser' n st"
  shows "serializeIterable c ser n s = serializeIterable c ser' n s"
proof -
  have e: "ser n = ser' n" by (rule ext) (rule assms)
  show ?thesis unfolding serializeIterable_def e ..
qed

lemma serializeArrayItem_cong:
  assumes "\<And>n st. item = Some n \<Longrightarrow> ser n st = ser' n st"
  shows "serializeArrayItem c ser i item index s = serializeArrayItem c ser' i item index s"
proof (cases item)
  case None
  then show ?thesis by (simp add: serializeArrayItem_def)
next
  case (Some n)
  have e: "ser n = ser' n" by (rule ext) (rule assms [OF Some])
  show ?thesis unfolding serializeArrayItem_def Some option.case e ..
qed

lemma serializeArrayLoop_cong:
  "(\<And>n st. Some n \<in> set xs \<Longrightarrow> ser n st = ser' n st)
   \<Longrightarrow> serializeArrayLoop c ser i xs index k vals h s = serializeArrayLoop c ser' i xs index k vals h s"
proof (induction c ser i xs index k vals h s rule: serializeArrayLoop.induct)
  case (1 c ser i xs index vals isHoley s)
  then show ?case by simp
next
  case (2 c ser i index n vals isHoley s)
  have "serializeArrayItem c ser i None index s = serializeArrayItem c ser' i None index s"
    by (rule serializeArrayItem_cong) simp
  with 2 show ?case by (simp split: sum.splits prod.splits)
next
  case (3 c ser i x xs index n vals isHoley s)
  have "serializeArrayItem c ser i x index s = serializeArrayItem c ser' i x index s"
    by (rule serializeArrayItem_cong) (simp add: 3)
  with 3 show ?case by (simp split: sum.splits prod.splits)
qed

lemma serializeArray_cong [fundef_cong]:
  assumes "\<And>n st. Some n \<in> set a \<Longrightarrow> ser n st = ser' n st"
  shows "serializeArray c ser i l a flag s = serializeArray c ser' i l a flag s"
proof -
  have h: "serializeArrayItem c ser i (case a of [] \<Rightarrow> None | x # _ \<Rightarrow> x) 0
         = serializeArrayItem c ser' i (case a of [] \<Rightarrow> None | x # _ \<Rightarrow> x) 0"
    by (rule ext, rule serializeArrayItem_cong) (use assms in \<open>auto split: list.splits\<close>)
  have t: "serializeArrayLoop c ser i (tl a) = serializeArrayLoop c ser' i (tl a)"
    by (intro ext, rule serializeArrayLoop_cong) (use assms in \<open>cases a; auto\<close>)
  show ?thesis unfolding serializeArray_def h t ..
qed

lemma serializeItemsLoop_cong:
  "(\<And>x st. x \<in> set xs \<Longrightarrow> f x st = g x st)
   \<Longrightarrow> serializeItemsLoop f xs n res item s = serializeItemsLoop g xs n res item s"
proof (induction f xs n res item s rule: serializeItemsLoop.induct)
  case (3 f x xs n res item s)
  have e: "f x s = g x s" by (rule "3.prems") simp
  show ?case
  proof (cases "g x s")
    case (Inl err)
    then show ?thesis using e by simp
  next
    case (Inr p)
    obtain item' s1 where p: "p = (item', s1)" by (cases p)
    have "serializeItemsLoop f xs n (res @ (if item = '''' then '''' else '','') @ item') item' s1
        = serializeItemsLoop g xs n (res @ (if item = '''' then '''' else '','') @ item') item' s1"
      by (rule "3.IH" [of p item' s1]) (use e Inr p "3.prems" in auto)
    then show ?thesis using e Inr p by simp
  qed
qed simp_all

lemma serializeItems_cong:
  assumes "\<And>x st. x \<in> set xs \<Longrightarrow> f x st = g x st"
  shows "serializeItems f i xs len s = serializeItems g i xs len s"
proof (cases xs)
  case Nil
  then show ?thesis by (simp add: serializeItems_def)
next
  case (Cons x rest)
  have a: "serializeItemsLoop f rest = serializeItemsLoop g rest"
    by (intro ext, rule serializeItemsLoop_cong) (simp add: assms Cons)
  have b: "f x = g x" by (rule ext) (simp add: assms Cons)
  show ?thesis unfolding serializeItems_def Cons list.case a b ..
qed

lemma serializeProperty_cong:
  assumes "\<And>st. ser v st = ser' v st"
  shows "serializeProperty c ser i k v s = serializeProperty c ser' i k v s"
proof -
  have e: "ser v = ser' v" by (rule ext) (rule assms)
  show ?thesis unfolding serializeProperty_def serializeIterable_def e ..
qed

lemma serializeProperties_cong [fundef_cong]:
  assumes "\<And>k v st. (k, v) \<in> set kvs \<Longrightarrow> ser v st = ser' v st"
  shows "serializeProperties c ser i kvs len s = serializeProperties c ser' i kvs len s"
proof -
  have "serializeItems (\<lambda>(k, v). serializeProperty c ser i k v) i kvs len s
      = serializeItems (\<lambda>(k, v). serializeProperty c ser' i k v) i kvs len s"
    by (rule serializeItems_cong) (use assms in \<open>auto intro: serializeProperty_cong\<close>)
  then show ?thesis by (simp add: serializeProperties_def)
qed

lemma serializeObject_cong [fundef_cong]:
  assumes "\<And>k v st. (k, v) \<in> set kvs \<Longrightarrow> ser v st = ser' v st"
  shows "serializeObject c ser i kvs len flag s = serializeObject c ser' i kvs len flag s"
  unfolding serializeObject_def
  using serializeProperties_cong [of kvs ser ser', OF assms] by simp

lemma serializeAssignment_cong:
  assumes "\<And>st. ser v st = ser' v st"
  shows "serializeAssignment c ser i m k v s = serializeAssignment c ser' i m k v s"
proof -
  have e: "ser v = ser' v" by (rule ext) (rule assms)
  show ?thesis unfolding serializeAssignment_def e ..
qed

lemma serializeAssignmentsLoop_cong:
  "(\<And>k v st. (k, v) \<in> set kvs \<Longrightarrow> ser v st = ser' v st)
   \<Longrightarrow> serializeAssignmentsLoop c ser i kvs n m s = serializeAssignmentsLoop c ser' i kvs n m s"
proof (induction c ser i kvs n m s rule: serializeAssignmentsLoop.induct)
  case (3 c ser sourceID k v kvs n mainAssignments s)
  have e: "serializeAssignment c ser sourceID mainAssignments k v s
         = serializeAssignment c ser' sourceID mainAssignments k v s"
    by (rule serializeAssignment_cong) (rule "3.prems" [of k], simp)
  show ?case
  proof (cases "serializeAssignment c ser' sourceID mainAssignments k v s")
    case (Inl err)
    then show ?thesis using e by simp
  next
    case (Inr p)
    obtain m' s1 where p: "p = (m', s1)" by (cases p)
    have "serializeAssignmentsLoop c ser sourceID kvs n m' s1
        = serializeAssignmentsLoop c ser' sourceID kvs n m' s1"
      by (rule "3.IH" [of p m' s1]) (use e Inr p "3.prems" in auto)
    then show ?thesis using e Inr p by simp
  qed
qed simp_all

lemma serializeDictionary_cong [fundef_cong]:
  assumes "\<And>kvs len k v st. p = Some (kvs, len) \<Longrightarrow> (k, v) \<in> set kvs \<Longrightarrow> ser v st = ser' v st"
  shows "serializeDictionary c ser i p init s = serializeDictionary c ser' i p init s"
proof (cases p)
  case None
  then show ?thesis by (simp add: serializeDictionary_def)
next
  case (Some r)
  obtain kvs len where r: "r = (kvs, len)" by (cases r)
  have a: "serializeProperties c ser i kvs len st = serializeProperties c ser' i kvs len st" for st
    by (rule serializeProperties_cong) (use assms Some r in auto)
  have b: "serializeAssignmentsLoop c ser i kvs n m st = serializeAssignmentsLoop c ser' i kvs n m st"
    for n m st
    by (rule serializeAssignmentsLoop_cong) (use assms Some r in auto)
  show ?thesis
    by (simp add: serializeDictionary_def serializeWithObjectAssign_def serializeAssignments_def
        Some r a b)
qed

lemma serializeNullConstructor_cong [fundef_cong]:
  assumes "\<And>k v st. (k, v) \<in> set kvs \<Longrightarrow> ser v st = ser' v st"
  shows "serializeNullConstructor c ser i kvs len flag s
       = serializeNullConstructor c ser' i kvs len flag s"
  unfolding serializeNullConstructor_def
  by (rule serializeDictionary_cong) (use assms in auto)

lemma serializeSetItem_cong:
  assumes "\<And>st. ser x st = ser' x st"
  shows "serializeSetItem c ser i x s = serializeSetItem c ser' i x s"
proof -
  have e: "ser x = ser' x" by (rule ext) (rule assms)
  show ?thesis unfolding serializeSetItem_def e ..
qed

lemma serializeSet_cong [fundef_cong]:
  assumes "\<And>x st. x \<in> set a \<Longrightarrow> ser x st = ser' x st"
  shows "serializeSet c ser i len a s = serializeSet c ser' i len a s"
proof -
  have "serializeItems (serializeSetItem c ser i) i a len s
      = serializeItems (serializeSetItem c ser' i) i a len s"
    by (rule serializeItems_cong) (use assms in \<open>auto intro: serializeSetItem_cong\<close>)
  then show ?thesis by (simp add: serializeSet_def)
qed

lemma serializeMapEntry_cong:
  assumes "\<And>st. ser k st = ser' k st" and "\<And>st. ser v st = ser' v st"
  shows "serializeMapEntry c ser i k v s = serializeMapEntry c ser' i k v s"
proof -
  have e: "ser k = ser' k" "ser v = ser' v" by (rule ext, rule assms)+
  show ?thesis unfolding serializeMapEntry_def e ..
qed

lemma serializeMap_cong [fundef_cong]:
  assumes "\<And>k v st. (k, v) \<in> set kvs \<Longrightarrow> ser k st = ser' k st"
      and "\<And>k v st. (k, v) \<in> set kvs \<Longrightarrow> ser v st = ser' v st"
  shows "serializeMap c ser i kvs len s = serializeMap c ser' i kvs len s"
proof -
  have "serializeItems (\<lambda>(k, v). serializeMapEntry c ser i k v) i kvs len s
      = serializeItems (\<lambda>(k, v). serializeMapEntry c ser' i k v) i kvs len s"
    by (rule serializeItems_cong) (use assms in \<open>auto intro!: serializeMapEntry_cong\<close>)
  then show ?thesis by (simp add: serializeMap_def)
qed

lemma serializePromise_cong [fundef_cong]:
  assumes "\<And>st. ser f st = ser' f st"
  shows "serializePromise c ser i r f s = serializePromise c ser' i r f s"
proof -
  have e: "ser f = ser' f" by (rule ext) (rule assms)
  show ?thesis unfolding serializePromise_def e ..
qed

lemma serializeFormDataEntry_cong:
  assumes "\<And>st. ser v st = ser' v st"
  shows "serializeFormDataEntry c ser i k v s = serializeFormDataEntry c ser' i k v s"
proof -
  have e: "ser v = ser' v" by (rule ext) (rule assms)
  show ?thesis unfolding serializeFormDataEntry_def e ..
qed

lemma serializeFormDataLoop_cong:
  "(\<And>k v st. (k, v) \<in> set kvs \<Longrightarrow> ser v st = ser' v st)
   \<Longrightarrow> serializeFormDataLoop c ser i kvs n res s = serializeFormDataLoop c ser' i kvs n res s"
proof (induction c ser i kvs n res s rule: serializeFormDataLoop.induct)
  case (3 c ser i k v kvs n res s)
  have e: "serializeFormDataEntry c ser i k v s = serializeFormDataEntry c ser' i k v s"
    by (rule serializeFormDataEntry_cong) (rule "3.prems" [of k], simp)
  show ?case
  proof (cases "serializeFormDataEntry c ser' i k v s")
    case (Inl err)
    then show ?thesis using e by simp
  next
    case (Inr p)
    obtain r s1 where p: "p = (r, s1)" by (cases p)
    have "serializeFormDataLoop c ser i kvs n (res @ '','' @ r) s1
        = serializeFormDataLoop c ser' i kvs n (res @ '','' @ r) s1"
      by (rule "3.IH" [of p r s1]) (use e Inr p "3.prems" in auto)
    then show ?thesis using e Inr p by simp
  qed
qed simp_all

lemma serializeFormData_cong [fundef_cong]:
  assumes "\<And>k v st. (k, v) \<in> set kvs \<Longrightarrow> ser v st = ser' v st"
  shows "serializeFormData c ser i kvs len s = serializeFormData c ser' i kvs len s"
proof (cases kvs)
  case Nil
  then show ?thesis by (simp add: serializeFormData_def serializeFormDataEntries_def)
next
  case (Cons kv rest)
  obtain k v where kv: "kv = (k, v)" by (cases kv)
  have a: "serializeFormDataEntry c ser i k v = serializeFormDataEntry c ser' i k v"
    by (rule ext, rule serializeFormDataEntry_cong) (rule assms [of k], simp add: Cons kv)
  have b: "serializeFormDataLoop c ser i rest = serializeFormDataLoop c ser' i rest"
    by (intro ext, rule serializeFormDataLoop_cong) (use assms Cons in auto)
  show ?thesis
    unfolding serializeFormData_def serializeFormDataEntries_def Cons kv list.case prod.case a b ..
qed

text \<open>
  \<open>serialize\<close>: the switch over the tag. The methods with a single child and no loop
  (typed arrays, \<open>DataView\<close>, \<open>Blob\<close>, \<open>File\<close>, \<open>Boxed\<close>, \<open>Request\<close>, \<open>Response\<close>, the
  events) stand in their case. A context without plugins reaches the \<open>throw\<close> of
  \<open>serializePlugin\<close>; the seven streaming-only tags go to methods that are abstract in
  this class. The \<open>default\<close> case of the switch (an unknown tag) has no node here.
\<close>

fun serialize :: "ctx \<Rightarrow> node \<Rightarrow> sstate \<Rightarrow> string result" where
  "serialize c (ConstantNode k) s = Inr (CONSTANT_STRING k, s)"
| "serialize c (NumberNode n) s = Inr (numberToString c n, s)"
| "serialize c (StringNode v) s = Inr (quoted v, s)"
| "serialize c (BigIntNode v) s = Inr (v @ ''n'', s)"
| "serialize c (IndexedValueNode i) s =
     (case deferred s i of
        Some r \<Rightarrow> Inr (r, s\<lparr>deferred := (deferred s)(i := None)\<rparr>)
      | None \<Rightarrow> Inr (getRefParam c i s))"
| "serialize c (ReferenceNode i r) s = Inr (serializeReference c i r s, s)"
| "serialize c (ArrayNode i l a flag) s = serializeArray c (serialize c) i l a flag s"
| "serialize c (ObjectNode i kvs len flag) s = serializeObject c (serialize c) i kvs len flag s"
| "serialize c (NullConstructorNode i kvs len flag) s =
     serializeNullConstructor c (serialize c) i kvs len flag s"
| "serialize c (DateNode i d) s =
     Inr (assignIndexedValue c i (''new Date(\"'' @ d @ ''\")'') s, s)"
| "serialize c (RegExpNode i src fl) s =
     Inr (assignIndexedValue c i (''/'' @ src @ ''/'' @ fl) s, s)"
| "serialize c (SetNode i l a) s = serializeSet c (serialize c) i l a s"
| "serialize c (MapNode i kvs len) s = serializeMap c (serialize c) i kvs len s"
| "serialize c (ArrayBufferNode i bytes) s = Inr (serializeArrayBuffer c i bytes s, s)"
| "serialize c (TypedArrayNode i cn f b l) s =
     (case serialize c f s of
        Inl e \<Rightarrow> Inl e
      | Inr (r, s1) \<Rightarrow>
          Inr (assignIndexedValue c i
                 (''new '' @ cn @ ''('' @ r @ '','' @ show_nat b @ '','' @ show_nat l @ '')'') s1, s1))"
| "serialize c (BigIntTypedArrayNode i cn f b l) s =
     (case serialize c f s of
        Inl e \<Rightarrow> Inl e
      | Inr (r, s1) \<Rightarrow>
          Inr (assignIndexedValue c i
                 (''new '' @ cn @ ''('' @ r @ '','' @ show_nat b @ '','' @ show_nat l @ '')'') s1, s1))"
| "serialize c (DataViewNode i f b l) s =
     (case serialize c f s of
        Inl e \<Rightarrow> Inl e
      | Inr (r, s1) \<Rightarrow>
          Inr (assignIndexedValue c i
                 (''new DataView('' @ r @ '','' @ show_nat b @ '','' @ show_nat l @ '')'') s1, s1))"
| "serialize c (AggregateErrorNode i m p) s =
     serializeDictionary c (serialize c) i p (''new AggregateError([],\"'' @ m @ ''\")'')
       (stack_pop (stack_push i s))"
| "serialize c (ErrorNode i ec m p) s =
     serializeDictionary c (serialize c) i p
       (''new '' @ ERROR_CONSTRUCTOR_STRING c ec @ ''(\"'' @ m @ ''\")'') s"
| "serialize c (PromiseNode i resolved f) s = serializePromise c (serialize c) i resolved f s"
| "serialize c (WKSymbolNode i sy) s = Inr (assignIndexedValue c i (SYMBOL_STRING c sy) s, s)"
| "serialize c (URLNode i u) s =
     Inr (assignIndexedValue c i (''new URL(\"'' @ u @ ''\")'') s, s)"
| "serialize c (URLSearchParamsNode i u) s =
     Inr (assignIndexedValue c i
            (if u \<noteq> '''' then ''new URLSearchParams(\"'' @ u @ ''\")'' else ''new URLSearchParams'')
            s, s)"
| "serialize c (BlobNode i ty f) s =
     (case serialize c f s of
        Inl e \<Rightarrow> Inl e
      | Inr (r, s1) \<Rightarrow>
          Inr (assignIndexedValue c i (''new Blob(['' @ r @ ''],{type:\"'' @ ty @ ''\"})'') s1, s1))"
| "serialize c (FileNode i ty name lastModified f) s =
     (case serialize c f s of
        Inl e \<Rightarrow> Inl e
      | Inr (r, s1) \<Rightarrow>
          Inr (assignIndexedValue c i
                 (''new File(['' @ r @ ''],\"'' @ name @ ''\",{type:\"'' @ ty @ ''\",lastModified:''
                    @ show_nat lastModified @ ''})'') s1, s1))"
| "serialize c (HeadersNode i kvs len) s =
     (case serializeProperties c (serialize c) i kvs len s of
        Inl e \<Rightarrow> Inl e
      | Inr (r, s1) \<Rightarrow> Inr (assignIndexedValue c i (''new Headers('' @ r @ '')'') s1, s1))"
| "serialize c (FormDataNode i kvs len) s = serializeFormData c (serialize c) i kvs len s"
| "serialize c (BoxedNode i f) s =
     (case serialize c f s of
        Inl e \<Rightarrow> Inl e
      | Inr (r, s1) \<Rightarrow> Inr (assignIndexedValue c i (''Object('' @ r @ '')'') s1, s1))"
| "serialize c (RequestNode i u f) s =
     (case serialize c f s of
        Inl e \<Rightarrow> Inl e
      | Inr (r, s1) \<Rightarrow>
          Inr (assignIndexedValue c i (''new Request(\"'' @ u @ ''\",'' @ r @ '')'') s1, s1))"
| "serialize c (ResponseNode i body opts) s =
     (case serialize c body s of
        Inl e \<Rightarrow> Inl e
      | Inr (r0, s1) \<Rightarrow>
          (case serialize c opts s1 of
             Inl e \<Rightarrow> Inl e
           | Inr (r1, s2) \<Rightarrow>
               Inr (assignIndexedValue c i (''new Response('' @ r0 @ '','' @ r1 @ '')'') s2, s2)))"
| "serialize c (EventNode i ty f) s =
     (case serialize c f s of
        Inl e \<Rightarrow> Inl e
      | Inr (r, s1) \<Rightarrow>
          Inr (assignIndexedValue c i (''new Event(\"'' @ ty @ ''\",'' @ r @ '')'') s1, s1))"
| "serialize c (CustomEventNode i ty f) s =
     (case serialize c f s of
        Inl e \<Rightarrow> Inl e
      | Inr (r, s1) \<Rightarrow>
          Inr (assignIndexedValue c i (''new CustomEvent(\"'' @ ty @ ''\",'' @ r @ '')'') s1, s1))"
| "serialize c (DOMExceptionNode i msg name) s =
     Inr (assignIndexedValue c i (''new DOMException(\"'' @ msg @ ''\",\"'' @ name @ ''\")'') s, s)"
| "serialize c (PluginNode i tag) s = Inl (MissingPlugin tag)"
| "serialize c (StreamingNode t i) s = Inl AbstractMethod"

section \<open>The stack is restored\<close>

text \<open>
  What each state operation does to the stack: only \<open>push\<close>, \<open>pop\<close> and the explicit
  resets touch it.
\<close>

lemma stack_markRef [simp]: "stack (markRef i s) = stack s"
  by (simp add: markRef_def)

lemma stack_getRefParam [simp]: "stack (snd (getRefParam c i s)) = stack s"
  by (simp add: getRefParam_def)

lemma getRefParam_eq: "getRefParam c i s = (refName c i, markRef i s)"
  by (simp add: getRefParam_def)

lemma stack_createAssignment [simp]: "stack (createAssignment a v s) = stack s"
  by (simp add: createAssignment_def)

lemma stack_createAddAssignment [simp]: "stack (createAddAssignment c i v s) = stack s"
  by (simp add: createAddAssignment_def getRefParam_eq)

lemma stack_createSetAssignment [simp]: "stack (createSetAssignment c i k v s) = stack s"
  by (simp add: createSetAssignment_def getRefParam_eq)

lemma stack_createArrayAssign [simp]: "stack (createArrayAssign c i k v s) = stack s"
  by (simp add: createArrayAssign_def getRefParam_eq)

lemma stack_createObjectAssign [simp]: "stack (createObjectAssign c i k v s) = stack s"
  by (simp add: createObjectAssign_def getRefParam_eq Let_def)

lemma stack_pushObjectFlag [simp]: "stack (pushObjectFlag c flag i s) = stack s"
  by (simp add: pushObjectFlag_def getRefParam_eq Let_def)

lemma stack_defer_value [simp]: "stack (defer_value i v s) = stack s"
  by (simp add: defer_value_def)

lemma stack_stack_push [simp]: "stack (stack_push i s) = stack s @ [i]"
  by (simp add: stack_push_def)

lemma stack_stack_pop [simp]: "stack (stack_pop s) = butlast (stack s)"
  by (simp add: stack_pop_def)

text \<open>
  A serializer keeps the stack when every call that returns leaves the stack it found.
  Each method keeps the stack if the serializer it calls does.
\<close>

definition keeps_stack :: "serializer \<Rightarrow> bool" where
  "keeps_stack ser = (\<forall>n s r s'. ser n s = Inr (r, s') \<longrightarrow> stack s' = stack s)"

lemma keeps_stackD: "keeps_stack ser \<Longrightarrow> ser n s = Inr (r, s') \<Longrightarrow> stack s' = stack s"
  by (auto simp: keeps_stack_def)

lemma serializeIterable_stack:
  "keeps_stack ser \<Longrightarrow> serializeIterable c ser n s = Inr (r, s') \<Longrightarrow> stack s' = stack s"
  by (auto simp: serializeIterable_def Let_def split: sum.splits prod.splits)

lemma serializeArrayItem_stack:
  "keeps_stack ser \<Longrightarrow> serializeArrayItem c ser i item index s = Inr (r, s')
   \<Longrightarrow> stack s' = stack s"
  by (auto simp: serializeArrayItem_def Let_def getRefParam_eq
           split: option.splits if_splits dest: keeps_stackD)

lemma serializeArrayLoop_stack:
  "keeps_stack ser \<Longrightarrow> serializeArrayLoop c ser i xs index n vals h s = Inr (r, s')
   \<Longrightarrow> stack s' = stack s"
proof (induction c ser i xs index n vals h s rule: serializeArrayLoop.induct)
  case (1 c ser i xs index vals isHoley s)
  then show ?case by simp
next
  case (2 c ser i index n vals isHoley s)
  then show ?case
    by (auto split: sum.splits prod.splits dest!: serializeArrayItem_stack)
next
  case (3 c ser i x xs index n vals isHoley s)
  then show ?case
    by (auto split: sum.splits prod.splits dest!: serializeArrayItem_stack)
qed

lemma serializeArray_stack:
  assumes "keeps_stack ser" and "serializeArray c ser i l a flag s = Inr (r, s')"
  shows "stack s' = stack s"
proof (cases "l = 0")
  case True
  with assms show ?thesis by (simp add: serializeArray_def)
next
  case False
  with assms(2) obtain vals s1 vals' h s2 where
    a: "serializeArrayItem c ser i (case a of [] \<Rightarrow> None | x # _ \<Rightarrow> x) 0 (stack_push i s)
          = Inr (vals, s1)" and
    b: "serializeArrayLoop c ser i (tl a) 1 (l - 1) vals (vals = '''') s1 = Inr ((vals', h), s2)" and
    c: "s' = pushObjectFlag c flag i (stack_pop s2)"
    by (auto simp: serializeArray_def Let_def split: sum.splits prod.splits)
  have "stack s1 = stack s @ [i]"
    using serializeArrayItem_stack [OF assms(1) a] by simp
  moreover have "stack s2 = stack s1"
    by (rule serializeArrayLoop_stack [OF assms(1) b])
  ultimately show ?thesis by (simp add: c)
qed

lemma serializeProperty_stack:
  "keeps_stack ser \<Longrightarrow> serializeProperty c ser i k v s = Inr (r, s') \<Longrightarrow> stack s' = stack s"
  by (cases k)
     (auto simp: serializeProperty_def Let_def getRefParam_eq
           split: sum.splits prod.splits if_splits
           dest: keeps_stackD serializeIterable_stack)

lemma serializeItemsLoop_stack:
  "(\<And>x st r st'. f x st = Inr (r, st') \<Longrightarrow> stack st' = stack st)
   \<Longrightarrow> serializeItemsLoop f xs n res item s = Inr (r, s') \<Longrightarrow> stack s' = stack s"
proof (induction f xs n res item s rule: serializeItemsLoop.induct)
  case (3 f x xs n res item s)
  from "3.prems"(2) obtain item' s1 where
    a: "f x s = Inr (item', s1)" and
    b: "serializeItemsLoop f xs n (res @ (if item = '''' then '''' else '','') @ item') item' s1
          = Inr (r, s')"
    by (auto split: sum.splits prod.splits)
  have "stack s' = stack s1" by (rule "3.IH" [OF a refl "3.prems"(1) b])
  then show ?case using "3.prems"(1) [OF a] by simp
qed simp_all

lemma serializeItems_stack:
  assumes "\<And>x st r st'. f x st = Inr (r, st') \<Longrightarrow> stack st' = stack st"
      and "serializeItems f i xs len s = Inr (r, s')"
  shows "stack s' = stack s"
proof -
  from assms(2) obtain x rest res s1 s2 where
    a: "f x (stack_push i s) = Inr (res, s1)" and
    b: "serializeItemsLoop f rest (len - 1) res res s1 = Inr (r, s2)" and
    c: "s' = stack_pop s2"
    by (auto simp: serializeItems_def Let_def split: list.splits sum.splits prod.splits)
  have "stack s1 = stack s @ [i]" using assms(1) [OF a] by simp
  moreover have "stack s2 = stack s1" by (rule serializeItemsLoop_stack [OF assms(1) b])
  ultimately show ?thesis by (simp add: c)
qed

lemma serializeProperties_stack:
  assumes "keeps_stack ser" and "serializeProperties c ser i kvs len s = Inr (r, s')"
  shows "stack s' = stack s"
proof (cases "len = 0")
  case True
  with assms show ?thesis by (simp add: serializeProperties_def)
next
  case False
  with assms(2) obtain res where
    "serializeItems (\<lambda>(k, v). serializeProperty c ser i k v) i kvs len s = Inr (res, s')"
    by (auto simp: serializeProperties_def split: sum.splits prod.splits)
  then show ?thesis
    by (rule serializeItems_stack [rotated])
       (auto dest: serializeProperty_stack [OF assms(1)])
qed

lemma serializeObject_stack:
  "keeps_stack ser \<Longrightarrow> serializeObject c ser i kvs len flag s = Inr (r, s')
   \<Longrightarrow> stack s' = stack s"
  by (auto simp: serializeObject_def Let_def split: sum.splits prod.splits
           dest!: serializeProperties_stack)

lemma serializeWithObjectAssign_stack:
  "keeps_stack ser \<Longrightarrow> serializeWithObjectAssign c ser kvs len i init s = Inr (r, s')
   \<Longrightarrow> stack s' = stack s"
  by (auto simp: serializeWithObjectAssign_def split: sum.splits prod.splits if_splits
           dest!: serializeProperties_stack)

lemma serializeAssignment_stack:
  "keeps_stack ser \<Longrightarrow> serializeAssignment c ser i m k v s = Inr (r, s')
   \<Longrightarrow> stack s' = stack s"
  by (cases k)
     (auto simp: serializeAssignment_def Let_def split: sum.splits prod.splits if_splits
           dest: keeps_stackD)

lemma serializeAssignmentsLoop_stack:
  "keeps_stack ser \<Longrightarrow> serializeAssignmentsLoop c ser i kvs n m s = Inr (r, s')
   \<Longrightarrow> stack s' = stack s"
proof (induction c ser i kvs n m s rule: serializeAssignmentsLoop.induct)
  case (3 c ser sourceID k v kvs n mainAssignments s)
  then show ?case
    by (auto split: sum.splits prod.splits dest!: serializeAssignment_stack)
qed simp_all

lemma serializeAssignments_stack:
  "keeps_stack ser \<Longrightarrow> serializeAssignments c ser i kvs len s = Inr (r, s')
   \<Longrightarrow> stack s' = stack s"
  by (auto simp: serializeAssignments_def split: sum.splits prod.splits if_splits
           dest!: serializeAssignmentsLoop_stack)

lemma serializeDictionary_stack:
  assumes "keeps_stack ser" and "serializeDictionary c ser i p init s = Inr (r, s')"
  shows "stack s' = stack s"
proof (cases p)
  case None
  with assms(2) show ?thesis by (simp add: serializeDictionary_def)
next
  case (Some rec)
  obtain kvs len where rec: "rec = (kvs, len)" by (cases rec)
  show ?thesis
  proof (cases "Feature_ObjectAssign \<in> features c")
    case True
    with assms(2) Some rec obtain init' where
      "serializeWithObjectAssign c ser kvs len i init s = Inr (init', s')"
      by (auto simp: serializeDictionary_def split: sum.splits prod.splits)
    then show ?thesis by (rule serializeWithObjectAssign_stack [OF assms(1)])
  next
    case False
    with assms(2) Some rec obtain asg s1 where
      a: "serializeAssignments c ser i kvs len (markRef i s) = Inr (asg, s1)" and
      b: "s' = s1 \<or> s' = markRef i s1"
      by (auto simp: serializeDictionary_def Let_def getRefParam_eq
               split: sum.splits prod.splits option.splits if_splits)
    have "stack s1 = stack s"
      using serializeAssignments_stack [OF assms(1) a] by simp
    with b show ?thesis by auto
  qed
qed

lemma serializeNullConstructor_stack:
  "keeps_stack ser \<Longrightarrow> serializeNullConstructor c ser i kvs len flag s = Inr (r, s')
   \<Longrightarrow> stack s' = stack s"
  by (auto simp: serializeNullConstructor_def dest!: serializeDictionary_stack)

lemma serializeSetItem_stack:
  "keeps_stack ser \<Longrightarrow> serializeSetItem c ser i x s = Inr (r, s') \<Longrightarrow> stack s' = stack s"
  by (auto simp: serializeSetItem_def Let_def getRefParam_eq split: if_splits dest: keeps_stackD)

lemma serializeSet_stack:
  assumes "keeps_stack ser" and "serializeSet c ser i len a s = Inr (r, s')"
  shows "stack s' = stack s"
proof (cases "len = 0")
  case True
  with assms show ?thesis by (simp add: serializeSet_def)
next
  case False
  with assms(2) obtain res where
    "serializeItems (serializeSetItem c ser i) i a len s = Inr (res, s')"
    by (auto simp: serializeSet_def split: sum.splits prod.splits)
  then show ?thesis
    by (rule serializeItems_stack [rotated]) (rule serializeSetItem_stack [OF assms(1)])
qed

lemma serializeMapEntry_stack:
  assumes "keeps_stack ser" and "serializeMapEntry c ser i k v s = Inr (r, s')"
  shows "stack s' = stack s"
proof -
  consider (key) "isIndexedValueInStack s k"
    | (val) "\<not> isIndexedValueInStack s k" "isIndexedValueInStack s v"
    | (none) "\<not> isIndexedValueInStack s k" "\<not> isIndexedValueInStack s v"
    by blast
  then show ?thesis
  proof cases
    case key
    with assms(2) show ?thesis
      by (auto simp: serializeMapEntry_def Let_def getRefParam_eq
               split: sum.splits prod.splits if_splits)
  next
    case val
    with assms(2) show ?thesis
      by (auto simp: serializeMapEntry_def Let_def getRefParam_eq
               split: sum.splits prod.splits if_splits)
  next
    case none
    with assms(2) obtain r1 s1 r2 where
      "ser k s = Inr (r1, s1)" "ser v s1 = Inr (r2, s')"
      by (auto simp: serializeMapEntry_def split: sum.splits prod.splits)
    then show ?thesis using keeps_stackD [OF assms(1)] by metis
  qed
qed

lemma serializeMap_stack:
  assumes "keeps_stack ser" and "serializeMap c ser i kvs len s = Inr (r, s')"
  shows "stack s' = stack s"
proof (cases "len = 0")
  case True
  with assms show ?thesis by (simp add: serializeMap_def)
next
  case False
  with assms(2) obtain res where
    "serializeItems (\<lambda>(k, v). serializeMapEntry c ser i k v) i kvs len s = Inr (res, s')"
    by (auto simp: serializeMap_def split: sum.splits prod.splits)
  then show ?thesis
    by (rule serializeItems_stack [rotated])
       (auto dest: serializeMapEntry_stack [OF assms(1)])
qed

lemma serializePromise_stack:
  "keeps_stack ser \<Longrightarrow> serializePromise c ser i resolved f s = Inr (r, s')
   \<Longrightarrow> stack s' = stack s"
  by (auto simp: serializePromise_def Let_def getRefParam_eq
           split: sum.splits prod.splits if_splits dest!: keeps_stackD)

lemma serializeFormDataEntry_stack:
  "keeps_stack ser \<Longrightarrow> serializeFormDataEntry c ser i k v s = Inr (r, s')
   \<Longrightarrow> stack s' = stack s"
  by (auto simp: serializeFormDataEntry_def Let_def getRefParam_eq
           split: sum.splits prod.splits dest!: keeps_stackD)

lemma serializeFormDataLoop_stack:
  "keeps_stack ser \<Longrightarrow> serializeFormDataLoop c ser i kvs n res s = Inr (r, s')
   \<Longrightarrow> stack s' = stack s"
proof (induction c ser i kvs n res s rule: serializeFormDataLoop.induct)
  case (3 c ser i k v kvs n res s)
  then show ?case
    by (auto split: sum.splits prod.splits dest!: serializeFormDataEntry_stack)
qed simp_all

lemma serializeFormData_stack:
  assumes "keeps_stack ser" and "serializeFormData c ser i kvs len s = Inr (r, s')"
  shows "stack s' = stack s"
proof (cases "len = 0")
  case True
  with assms(2) show ?thesis by (simp add: serializeFormData_def)
next
  case False
  with assms(2) obtain k v rest res s1 entries s2 where
    a: "serializeFormDataEntry c ser i k v (markRef i s) = Inr (res, s1)" and
    b: "serializeFormDataLoop c ser i rest (len - 1) res s1 = Inr (entries, s2)" and
    c: "s' = markRef i s2"
    by (auto simp: serializeFormData_def serializeFormDataEntries_def Let_def getRefParam_eq
             split: list.splits sum.splits prod.splits)
  have "stack s1 = stack s"
    using serializeFormDataEntry_stack [OF assms(1) a] by simp
  moreover have "stack s2 = stack s1"
    by (rule serializeFormDataLoop_stack [OF assms(1) b])
  ultimately show ?thesis by (simp add: c)
qed

text \<open>
  Claim C10. Every call of \<open>serialize\<close> that returns leaves the stack holding the sequence
  of ids it held at entry: each method that pushes an id pops it on every return path,
  and \<open>serializeIterable\<close>, \<open>serializeMapEntry\<close> and \<open>serializeAssignment\<close>, which work on
  an empty stack for a while, put the saved stack back before they return. (A call that
  throws does not return; the context is then left as the throw found it.)
\<close>

theorem serialize_restores_stack:
  "serialize c n s = Inr (r, s') \<Longrightarrow> stack s' = stack s"
proof (induction c n s arbitrary: r s' rule: serialize.induct)
  case (5 c i s)
  then show ?case by (auto simp: getRefParam_eq split: option.splits)
next
  case (7 c i l a flag s)
  define ser where "ser = (\<lambda>n st. if Some n \<in> set a then serialize c n st else Inl TypeError)"
  have k: "keeps_stack ser"
    unfolding keeps_stack_def ser_def using "7.IH" by (auto split: if_splits)
  have "serializeArray c (serialize c) i l a flag s = serializeArray c ser i l a flag s"
    by (rule serializeArray_cong) (simp add: ser_def)
  with "7.prems" have "serializeArray c ser i l a flag s = Inr (r, s')" by simp
  then show ?case by (rule serializeArray_stack [OF k])
next
  case (8 c i kvs len flag s)
  define ser where
    "ser = (\<lambda>n st. if n \<in> snd ` set kvs then serialize c n st else Inl TypeError)"
  have k: "keeps_stack ser"
    unfolding keeps_stack_def ser_def using "8.IH" by (auto split: if_splits)
  have "serializeObject c (serialize c) i kvs len flag s = serializeObject c ser i kvs len flag s"
    by (rule serializeObject_cong) (force simp: ser_def)
  with "8.prems" have "serializeObject c ser i kvs len flag s = Inr (r, s')" by simp
  then show ?case by (rule serializeObject_stack [OF k])
next
  case (9 c i kvs len flag s)
  define ser where
    "ser = (\<lambda>n st. if n \<in> snd ` set kvs then serialize c n st else Inl TypeError)"
  have k: "keeps_stack ser"
    unfolding keeps_stack_def ser_def using "9.IH" by (auto split: if_splits)
  have "serializeNullConstructor c (serialize c) i kvs len flag s
      = serializeNullConstructor c ser i kvs len flag s"
    by (rule serializeNullConstructor_cong) (force simp: ser_def)
  with "9.prems" have "serializeNullConstructor c ser i kvs len flag s = Inr (r, s')" by simp
  then show ?case by (rule serializeNullConstructor_stack [OF k])
next
  case (12 c i l a s)
  define ser where "ser = (\<lambda>n st. if n \<in> set a then serialize c n st else Inl TypeError)"
  have k: "keeps_stack ser"
    unfolding keeps_stack_def ser_def using "12.IH" by (auto split: if_splits)
  have "serializeSet c (serialize c) i l a s = serializeSet c ser i l a s"
    by (rule serializeSet_cong) (simp add: ser_def)
  with "12.prems" have "serializeSet c ser i l a s = Inr (r, s')" by simp
  then show ?case by (rule serializeSet_stack [OF k])
next
  case (13 c i kvs len s)
  define ser where
    "ser = (\<lambda>n st. if n \<in> fst ` set kvs \<union> snd ` set kvs then serialize c n st
                    else Inl TypeError)"
  have k: "keeps_stack ser"
    unfolding keeps_stack_def ser_def using "13.IH" by (auto split: if_splits)
  have "serializeMap c (serialize c) i kvs len s = serializeMap c ser i kvs len s"
    by (rule serializeMap_cong) (force simp: ser_def)+
  with "13.prems" have "serializeMap c ser i kvs len s = Inr (r, s')" by simp
  then show ?case by (rule serializeMap_stack [OF k])
next
  case (18 c i m p s)
  define ser where
    "ser = (\<lambda>n st. if (\<exists>kvs len. p = Some (kvs, len) \<and> n \<in> snd ` set kvs)
                    then serialize c n st else Inl TypeError)"
  have k: "keeps_stack ser"
    unfolding keeps_stack_def ser_def using "18.IH" by (auto split: if_splits)
  have "serializeDictionary c (serialize c) i p init st = serializeDictionary c ser i p init st"
    for init st
    by (rule serializeDictionary_cong) (force simp: ser_def)
  with "18.prems" obtain init where
    "serializeDictionary c ser i p init (stack_pop (stack_push i s)) = Inr (r, s')" by simp
  then have "stack s' = stack (stack_pop (stack_push i s))"
    by (rule serializeDictionary_stack [OF k])
  then show ?case by simp
next
  case (19 c i ec m p s)
  define ser where
    "ser = (\<lambda>n st. if (\<exists>kvs len. p = Some (kvs, len) \<and> n \<in> snd ` set kvs)
                    then serialize c n st else Inl TypeError)"
  have k: "keeps_stack ser"
    unfolding keeps_stack_def ser_def using "19.IH" by (auto split: if_splits)
  have "serializeDictionary c (serialize c) i p init st = serializeDictionary c ser i p init st"
    for init st
    by (rule serializeDictionary_cong) (force simp: ser_def)
  with "19.prems" obtain init where
    "serializeDictionary c ser i p init s = Inr (r, s')" by simp
  then show ?case by (rule serializeDictionary_stack [OF k])
next
  case (20 c i resolved f s)
  define ser where "ser = (\<lambda>n st. if n = f then serialize c n st else Inl TypeError)"
  have k: "keeps_stack ser"
    unfolding keeps_stack_def ser_def using "20.IH" by (auto split: if_splits)
  have "serializePromise c (serialize c) i resolved f s = serializePromise c ser i resolved f s"
    by (rule serializePromise_cong) (simp add: ser_def)
  with "20.prems" have "serializePromise c ser i resolved f s = Inr (r, s')" by simp
  then show ?case by (rule serializePromise_stack [OF k])
next
  case (26 c i kvs len s)
  define ser where
    "ser = (\<lambda>n st. if n \<in> snd ` set kvs then serialize c n st else Inl TypeError)"
  have k: "keeps_stack ser"
    unfolding keeps_stack_def ser_def using "26.IH" by (auto split: if_splits)
  have "serializeProperties c (serialize c) i kvs len s = serializeProperties c ser i kvs len s"
    by (rule serializeProperties_cong) (force simp: ser_def)
  with "26.prems" obtain r0 where "serializeProperties c ser i kvs len s = Inr (r0, s')"
    by (auto split: sum.splits prod.splits)
  then show ?case by (rule serializeProperties_stack [OF k])
next
  case (27 c i kvs len s)
  define ser where
    "ser = (\<lambda>n st. if n \<in> snd ` set kvs then serialize c n st else Inl TypeError)"
  have k: "keeps_stack ser"
    unfolding keeps_stack_def ser_def using "27.IH" by (auto split: if_splits)
  have "serializeFormData c (serialize c) i kvs len s = serializeFormData c ser i kvs len s"
    by (rule serializeFormData_cong) (force simp: ser_def)
  with "27.prems" have "serializeFormData c ser i kvs len s = Inr (r, s')" by simp
  then show ?case by (rule serializeFormData_stack [OF k])
next
  case (30 c i body opts s)
  from "30.prems" obtain r0 s1 r1 where
    a: "serialize c body s = Inr (r0, s1)" and b: "serialize c opts s1 = Inr (r1, s')"
    by (auto split: sum.splits prod.splits)
  have "stack s1 = stack s" by (rule "30.IH"(1) [OF a])
  moreover have "stack s' = stack s1" by (rule "30.IH"(2) [OF a refl b])
  ultimately show ?case by simp
qed (auto split: sum.splits prod.splits)

section \<open>Assignments and texts\<close>

text \<open>
  Two more things hold of every call that returns. The call only adds to the list of
  assignments: the methods that swap the list for a local one put it back. And the call
  returns a text that is not empty, provided no text that it builds on is empty: the
  names of the ids, the texts of the numbers, the entries of \<open>SYMBOL_STRING\<close> and the
  texts that wait in the deferred map; the deferred map then holds no empty text
  afterwards either.
\<close>

definition texts_ok :: "ctx \<Rightarrow> sstate \<Rightarrow> bool" where
  "texts_ok c s \<longleftrightarrow>
     (\<forall>i. refName c i \<noteq> '''') \<and> (\<forall>z. numberToString c z \<noteq> '''')
     \<and> (\<forall>k. SYMBOL_STRING c k \<noteq> '''') \<and> (\<forall>i. deferred s i \<noteq> Some '''')"

definition steps :: "ctx \<Rightarrow> sstate \<Rightarrow> sstate \<Rightarrow> bool" where
  "steps c s s' \<longleftrightarrow>
     prefix (assignments s) (assignments s') \<and> (texts_ok c s \<longrightarrow> texts_ok c s')"

definition keeps_text :: "ctx \<Rightarrow> serializer \<Rightarrow> bool" where
  "keeps_text c ser \<longleftrightarrow>
     (\<forall>n s r s'. ser n s = Inr (r, s') \<longrightarrow> steps c s s' \<and> (texts_ok c s \<longrightarrow> r \<noteq> ''''))"

lemma steps_refl [simp]: "steps c s s"
  by (simp add: steps_def)

lemma steps_trans: "steps c s s1 \<Longrightarrow> steps c s1 s2 \<Longrightarrow> steps c s s2"
  by (auto simp: steps_def)

lemma keeps_text_steps: "keeps_text c ser \<Longrightarrow> ser n s = Inr (r, s') \<Longrightarrow> steps c s s'"
  by (auto simp: keeps_text_def)

lemma keeps_text_nonempty:
  "keeps_text c ser \<Longrightarrow> ser n s = Inr (r, s') \<Longrightarrow> texts_ok c s \<Longrightarrow> r \<noteq> ''''"
  by (auto simp: keeps_text_def)

text \<open>A change that appends assignments and leaves the deferred map alone is a step.\<close>

lemma steps_append:
  "assignments s' = assignments s @ zs \<Longrightarrow> deferred s' = deferred s \<Longrightarrow> steps c s s'"
  by (simp add: steps_def texts_ok_def)

lemma steps_markRef [simp]: "steps c s (markRef i s)"
  by (rule steps_append [of _ _ "[]"]) (simp_all add: markRef_def)

lemma steps_stack [simp]: "steps c s (s\<lparr>stack := stk\<rparr>)"
  by (rule steps_append [of _ _ "[]"]) simp_all

lemma steps_stack_push [simp]: "steps c s (stack_push i s)"
  by (simp add: stack_push_def)

lemma steps_stack_pop [simp]: "steps c s (stack_pop s)"
  by (simp add: stack_pop_def)

lemma steps_createAssignment [simp]: "steps c s (createAssignment a v s)"
  by (rule steps_append) (simp_all add: createAssignment_def)

lemma steps_createAddAssignment [simp]: "steps c s (createAddAssignment c' i v s)"
  by (rule steps_append) (simp_all add: createAddAssignment_def getRefParam_eq markRef_def)

lemma steps_createSetAssignment [simp]: "steps c s (createSetAssignment c' i k v s)"
  by (rule steps_append) (simp_all add: createSetAssignment_def getRefParam_eq markRef_def)

lemma steps_createArrayAssign [simp]: "steps c s (createArrayAssign c' i k v s)"
  by (rule steps_append)
     (simp_all add: createArrayAssign_def createAssignment_def getRefParam_eq markRef_def)

lemma steps_createObjectAssign [simp]: "steps c s (createObjectAssign c' i k v s)"
  by (rule steps_append)
     (simp_all add: createObjectAssign_def createAssignment_def getRefParam_eq markRef_def Let_def)

lemma steps_pushObjectFlag [simp]: "steps c s (pushObjectFlag c' flag i s)"
  by (rule steps_append [of _ _ "[]"])
     (simp_all add: pushObjectFlag_def getRefParam_eq markRef_def Let_def)

lemma steps_then:
  "steps c s s1 \<Longrightarrow> steps c s (markRef i s1)"
  "steps c s s1 \<Longrightarrow> steps c s (s1\<lparr>stack := stk\<rparr>)"
  "steps c s s1 \<Longrightarrow> steps c s (stack_push i s1)"
  "steps c s s1 \<Longrightarrow> steps c s (stack_pop s1)"
  "steps c s s1 \<Longrightarrow> steps c s (createAssignment a v s1)"
  "steps c s s1 \<Longrightarrow> steps c s (createAddAssignment c' i v s1)"
  "steps c s s1 \<Longrightarrow> steps c s (createSetAssignment c' i k v s1)"
  "steps c s s1 \<Longrightarrow> steps c s (createArrayAssign c' i k v s1)"
  "steps c s s1 \<Longrightarrow> steps c s (createObjectAssign c' i k v s1)"
  "steps c s s1 \<Longrightarrow> steps c s (pushObjectFlag c' flag i s1)"
  by (erule steps_trans, simp)+

lemma steps_same:
  "assignments s1 = assignments s2 \<Longrightarrow> deferred s1 = deferred s2
   \<Longrightarrow> steps c s1 s' = steps c s2 s'"
  "assignments s1 = assignments s2 \<Longrightarrow> deferred s1 = deferred s2
   \<Longrightarrow> steps c s s1 = steps c s s2"
  by (simp_all add: steps_def texts_ok_def)

lemma steps_from [simp]:
  "steps c (markRef i s1) s' = steps c s1 s'"
  "steps c (s1\<lparr>stack := stk\<rparr>) s' = steps c s1 s'"
  "steps c (stack_push i s1) s' = steps c s1 s'"
  "steps c (stack_pop s1) s' = steps c s1 s'"
  "steps c (pushObjectFlag c' flag i s1) s' = steps c s1 s'"
  by (rule steps_same; simp add: markRef_def stack_push_def stack_pop_def pushObjectFlag_def
        getRefParam_eq Let_def)+

lemma steps_to [simp]:
  "steps c s (markRef i s1) = steps c s s1"
  "steps c s (s1\<lparr>stack := stk\<rparr>) = steps c s s1"
  "steps c s (stack_push i s1) = steps c s s1"
  "steps c s (stack_pop s1) = steps c s s1"
  "steps c s (pushObjectFlag c' flag i s1) = steps c s s1"
  by (rule steps_same; simp add: markRef_def stack_push_def stack_pop_def pushObjectFlag_def
        getRefParam_eq Let_def)+

lemma assignIndexedValue_nonempty [simp]:
  "v \<noteq> '''' \<Longrightarrow> assignIndexedValue c i v s \<noteq> ''''"
  by (simp add: assignIndexedValue_def)

lemma serializeIterable_steps:
  "keeps_text c ser \<Longrightarrow> serializeIterable c ser n s = Inr (r, s') \<Longrightarrow> steps c s s'"
  by (auto simp: serializeIterable_def Let_def split: sum.splits prod.splits
           dest!: keeps_text_steps)

lemma serializeArrayItem_steps:
  "keeps_text c ser \<Longrightarrow> serializeArrayItem c ser i item index s = Inr (r, s')
   \<Longrightarrow> steps c s s'"
  by (auto simp: serializeArrayItem_def Let_def getRefParam_eq
           split: option.splits if_splits dest: keeps_text_steps intro!: steps_then)

lemma serializeArrayLoop_steps:
  "keeps_text c ser \<Longrightarrow> serializeArrayLoop c ser i xs index n vals h s = Inr (r, s')
   \<Longrightarrow> steps c s s'"
proof (induction c ser i xs index n vals h s rule: serializeArrayLoop.induct)
  case (1 c ser i xs index vals isHoley s)
  then show ?case by simp
next
  case (2 c ser i index n vals isHoley s)
  then show ?case by (simp add: serializeArrayItem_def)
next
  case (3 c ser i x xs index n vals isHoley s)
  from "3.prems"(2) obtain item s1 where
    a: "serializeArrayItem c ser i x index s = Inr (item, s1)" and
    b: "serializeArrayLoop c ser i xs (index + 1) n (vals @ '','' @ item) (item = '''') s1
          = Inr (r, s')"
    by (auto split: sum.splits prod.splits)
  from serializeArrayItem_steps [OF "3.prems"(1) a] "3.IH" [OF a refl "3.prems"(1) b]
  show ?case by (rule steps_trans)
qed

lemma serializeArray_steps:
  assumes "keeps_text c ser" and "serializeArray c ser i l a flag s = Inr (r, s')"
  shows "steps c s s'"
proof (cases "l = 0")
  case True
  with assms show ?thesis by (simp add: serializeArray_def)
next
  case False
  with assms(2) obtain vals s1 vals' h s2 where
    a: "serializeArrayItem c ser i (case a of [] \<Rightarrow> None | x # _ \<Rightarrow> x) 0 (stack_push i s)
          = Inr (vals, s1)" and
    b: "serializeArrayLoop c ser i (tl a) 1 (l - 1) vals (vals = '''') s1 = Inr ((vals', h), s2)" and
    c: "s' = pushObjectFlag c flag i (stack_pop s2)"
    by (auto simp: serializeArray_def Let_def split: sum.splits prod.splits)
  from serializeArrayItem_steps [OF assms(1) a] have "steps c s s1" by simp
  with serializeArrayLoop_steps [OF assms(1) b] have "steps c s s2"
    by (blast intro: steps_trans)
  then show ?thesis unfolding c by simp
qed

lemma serializeProperty_steps:
  "keeps_text c ser \<Longrightarrow> serializeProperty c ser i key val s = Inr (r, s') \<Longrightarrow> steps c s s'"
  by (auto simp: serializeProperty_def Let_def getRefParam_eq
           split: record_key.splits sum.splits prod.splits if_splits
           dest: keeps_text_steps serializeIterable_steps intro!: steps_then)

lemma serializeItemsLoop_steps:
  "serializeItemsLoop f xs n res item s = Inr (r, s')
   \<Longrightarrow> (\<And>x st q st'. f x st = Inr (q, st') \<Longrightarrow> steps c st st') \<Longrightarrow> steps c s s'"
proof (induction f xs n res item s rule: serializeItemsLoop.induct)
  case (3 f x xs n res item s)
  from "3.prems"(1) obtain item' s1 where
    a: "f x s = Inr (item', s1)" and
    b: "serializeItemsLoop f xs n (res @ (if item = '''' then '''' else '','') @ item') item' s1
          = Inr (r, s')"
    by (auto split: sum.splits prod.splits)
  from "3.prems"(2) [OF a] "3.IH" [OF a refl b "3.prems"(2)] show ?case
    by (rule steps_trans)
qed simp_all

lemma serializeItems_steps:
  assumes "serializeItems f i xs len s = Inr (r, s')"
      and "\<And>x st q st'. f x st = Inr (q, st') \<Longrightarrow> steps c st st'"
  shows "steps c s s'"
proof -
  from assms(1) obtain x rest res s1 s2 where
    a: "f x (stack_push i s) = Inr (res, s1)" and
    b: "serializeItemsLoop f rest (len - 1) res res s1 = Inr (r, s2)" and
    c: "s' = stack_pop s2"
    by (auto simp: serializeItems_def Let_def split: list.splits sum.splits prod.splits)
  from assms(2) [OF a] have "steps c s s1" by simp
  moreover have "steps c s1 s2"
    by (rule serializeItemsLoop_steps [OF b]) (rule assms(2))
  ultimately have "steps c s s2" by (rule steps_trans)
  then show ?thesis by (simp add: c)
qed

lemma serializeProperties_steps:
  assumes "keeps_text c ser" and "serializeProperties c ser i kvs len s = Inr (r, s')"
  shows "steps c s s'"
proof (cases "len = 0")
  case True
  with assms(2) show ?thesis by (simp add: serializeProperties_def)
next
  case False
  with assms(2) obtain res where
    "serializeItems (\<lambda>(k, v). serializeProperty c ser i k v) i kvs len s = Inr (res, s')"
    by (auto simp: serializeProperties_def split: sum.splits prod.splits)
  then show ?thesis
    by (rule serializeItems_steps) (auto dest: serializeProperty_steps [OF assms(1)])
qed

lemma serializeProperties_nonempty:
  "serializeProperties c ser i kvs len s = Inr (r, s') \<Longrightarrow> r \<noteq> ''''"
  by (auto simp: serializeProperties_def split: if_splits sum.splits prod.splits)

lemma serializeObject_steps:
  "keeps_text c ser \<Longrightarrow> serializeObject c ser i kvs len flag s = Inr (r, s') \<Longrightarrow> steps c s s'"
  by (auto simp: serializeObject_def Let_def split: sum.splits prod.splits
           dest: serializeProperties_steps)

lemma serializeAssignment_steps:
  assumes "keeps_text c ser"
      and "serializeAssignment c ser i m key val s = Inr (m', s')"
  shows "steps c s s'"
proof (cases key)
  case SymbolIterator
  with assms(2) obtain r s1 where
    a: "ser val (s\<lparr>stack := []\<rparr>) = Inr (r, s1)" and
    b: "assignments s' = assignments s1" "deferred s' = deferred s1"
    by (auto simp: serializeAssignment_def Let_def createArrayAssign_def createAssignment_def
          getRefParam_eq markRef_def split: sum.splits prod.splits)
  from keeps_text_steps [OF assms(1) a] have "steps c s s1" by simp
  with b show ?thesis by (simp add: steps_same(2) [of s' s1])
next
  case (Key k)
  with assms(2) obtain r s1 where
    a: "ser val s = Inr (r, s1)" and
    b: "(\<exists>zs. assignments s' = assignments s1 @ zs)" "deferred s' = deferred s1"
    by (auto simp: serializeAssignment_def Let_def createArrayAssign_def createObjectAssign_def
          createAssignment_def getRefParam_eq markRef_def
          split: sum.splits prod.splits if_splits)
  from b have "steps c s1 s'" by (auto intro: steps_append)
  with keeps_text_steps [OF assms(1) a] show ?thesis by (rule steps_trans)
qed

lemma serializeAssignmentsLoop_steps:
  "keeps_text c ser \<Longrightarrow> serializeAssignmentsLoop c ser i kvs n m s = Inr (m', s')
   \<Longrightarrow> steps c s s'"
proof (induction c ser i kvs n m s rule: serializeAssignmentsLoop.induct)
  case (3 c ser sourceID k v kvs n mainAssignments s)
  from "3.prems"(2) obtain m1 s1 where
    a: "serializeAssignment c ser sourceID mainAssignments k v s = Inr (m1, s1)" and
    b: "serializeAssignmentsLoop c ser sourceID kvs n m1 s1 = Inr (m', s')"
    by (auto split: sum.splits prod.splits)
  from serializeAssignment_steps [OF "3.prems"(1) a] "3.IH" [OF a refl "3.prems"(1) b]
  show ?case by (rule steps_trans)
qed simp_all

lemma serializeAssignments_steps:
  "keeps_text c ser \<Longrightarrow> serializeAssignments c ser i kvs len s = Inr (r, s') \<Longrightarrow> steps c s s'"
  by (auto simp: serializeAssignments_def split: if_splits sum.splits prod.splits
           dest: serializeAssignmentsLoop_steps)

lemma serializeDictionary_steps:
  "keeps_text c ser \<Longrightarrow> serializeDictionary c ser i p init s = Inr (r, s') \<Longrightarrow> steps c s s'"
  by (auto simp: serializeDictionary_def serializeWithObjectAssign_def getRefParam_eq
           split: option.splits if_splits sum.splits prod.splits
           dest: serializeProperties_steps serializeAssignments_steps)

lemma serializeDictionary_nonempty:
  "serializeDictionary c ser i p init s = Inr (r, s') \<Longrightarrow> init \<noteq> '''' \<Longrightarrow> r \<noteq> ''''"
  by (auto simp: serializeDictionary_def serializeWithObjectAssign_def getRefParam_eq
           assignIndexedValue_def
           split: option.splits if_splits sum.splits prod.splits)

lemma serializeSetItem_steps:
  "keeps_text c ser \<Longrightarrow> serializeSetItem c ser i item s = Inr (r, s') \<Longrightarrow> steps c s s'"
  by (auto simp: serializeSetItem_def Let_def getRefParam_eq split: if_splits
           dest: keeps_text_steps intro!: steps_then)

lemma serializeSet_steps:
  assumes "keeps_text c ser" and "serializeSet c ser i len a s = Inr (r, s')"
  shows "steps c s s'"
proof (cases "len = 0")
  case True
  with assms(2) show ?thesis by (simp add: serializeSet_def)
next
  case False
  with assms(2) obtain res where
    "serializeItems (serializeSetItem c ser i) i a len s = Inr (res, s')"
    by (auto simp: serializeSet_def split: sum.splits prod.splits)
  then show ?thesis
    by (rule serializeItems_steps) (rule serializeSetItem_steps [OF assms(1)])
qed

lemma texts_ok_same:
  "deferred s1 = deferred s2 \<Longrightarrow> texts_ok c s1 = texts_ok c s2"
  by (simp add: texts_ok_def)

lemma texts_ok_ops [simp]:
  "texts_ok c (markRef i s) = texts_ok c s"
  "texts_ok c (s\<lparr>stack := stk\<rparr>) = texts_ok c s"
  "texts_ok c (stack_push i s) = texts_ok c s"
  "texts_ok c (stack_pop s) = texts_ok c s"
  by (rule texts_ok_same; simp add: markRef_def stack_push_def stack_pop_def)+

lemma keeps_textD:
  "keeps_text c ser \<Longrightarrow> ser n s = Inr (r, s')
   \<Longrightarrow> steps c s s' \<and> (texts_ok c s \<longrightarrow> r \<noteq> '''')"
  by (auto simp: keeps_text_def)

lemma steps_defer:
  "steps c s s1 \<Longrightarrow> (texts_ok c s \<longrightarrow> r \<noteq> '''') \<Longrightarrow> steps c s (defer_value j r s1)"
  by (auto simp: steps_def texts_ok_def defer_value_def)

lemma serializeMapEntry_steps:
  assumes "keeps_text c ser" and "serializeMapEntry c ser i key val s = Inr (r, s')"
  shows "steps c s s'"
  using assms(2)
  by (auto simp: serializeMapEntry_def Let_def getRefParam_eq
           split: if_splits sum.splits prod.splits
           dest!: keeps_textD [OF assms(1)] intro!: steps_then steps_defer
           intro: steps_trans)

lemma serializeMap_steps:
  assumes "keeps_text c ser" and "serializeMap c ser i kvs len s = Inr (r, s')"
  shows "steps c s s'"
proof (cases "len = 0")
  case True
  with assms(2) show ?thesis by (simp add: serializeMap_def)
next
  case False
  with assms(2) obtain res where
    "serializeItems (\<lambda>(k, v). serializeMapEntry c ser i k v) i kvs len s = Inr (res, s')"
    by (auto simp: serializeMap_def split: sum.splits prod.splits)
  then show ?thesis
    by (rule serializeItems_steps) (auto dest: serializeMapEntry_steps [OF assms(1)])
qed

lemma serializePromise_steps:
  "keeps_text c ser \<Longrightarrow> serializePromise c ser i resolved f s = Inr (r, s') \<Longrightarrow> steps c s s'"
  by (auto simp: serializePromise_def Let_def getRefParam_eq
           split: if_splits sum.splits prod.splits dest!: keeps_text_steps)

lemma serializePromise_nonempty:
  "serializePromise c ser i resolved f s = Inr (r, s') \<Longrightarrow> r \<noteq> ''''"
  by (auto simp: serializePromise_def Let_def getRefParam_eq assignIndexedValue_def
           split: if_splits sum.splits prod.splits)

lemma serializeFormDataEntry_steps:
  "keeps_text c ser \<Longrightarrow> serializeFormDataEntry c ser i key val s = Inr (r, s')
   \<Longrightarrow> steps c s s'"
  by (auto simp: serializeFormDataEntry_def getRefParam_eq split: sum.splits prod.splits
           dest!: keeps_text_steps)

lemma serializeFormDataLoop_steps:
  "keeps_text c ser \<Longrightarrow> serializeFormDataLoop c ser i kvs n res s = Inr (r, s')
   \<Longrightarrow> steps c s s'"
proof (induction c ser i kvs n res s rule: serializeFormDataLoop.induct)
  case (3 c ser i k v kvs n res s)
  from "3.prems"(2) obtain q s1 where
    a: "serializeFormDataEntry c ser i k v s = Inr (q, s1)" and
    b: "serializeFormDataLoop c ser i kvs n (res @ '','' @ q) s1 = Inr (r, s')"
    by (auto split: sum.splits prod.splits)
  from serializeFormDataEntry_steps [OF "3.prems"(1) a] "3.IH" [OF a refl "3.prems"(1) b]
  show ?case by (rule steps_trans)
qed simp_all

lemma serializeFormData_steps:
  assumes "keeps_text c ser" and "serializeFormData c ser i kvs len s = Inr (r, s')"
  shows "steps c s s'"
proof (cases "len = 0")
  case True
  with assms(2) show ?thesis by (simp add: serializeFormData_def)
next
  case False
  with assms(2) obtain k v rest res s1 entries s2 where
    a: "serializeFormDataEntry c ser i k v (markRef i s) = Inr (res, s1)" and
    b: "serializeFormDataLoop c ser i rest (len - 1) res s1 = Inr (entries, s2)" and
    c: "s' = markRef i s2"
    by (auto simp: serializeFormData_def serializeFormDataEntries_def Let_def getRefParam_eq
             split: list.splits sum.splits prod.splits)
  from serializeFormDataEntry_steps [OF assms(1) a] have "steps c s s1" by simp
  moreover have "steps c s1 s2" by (rule serializeFormDataLoop_steps [OF assms(1) b])
  ultimately have "steps c s s2" by (rule steps_trans)
  then show ?thesis by (simp add: c)
qed

lemma serializeFormData_nonempty:
  "serializeFormData c ser i kvs len s = Inr (r, s') \<Longrightarrow> r \<noteq> ''''"
  by (auto simp: serializeFormData_def Let_def getRefParam_eq assignIndexedValue_def
           split: if_splits sum.splits prod.splits)

lemma serializeArray_nonempty:
  "serializeArray c ser i l a flag s = Inr (r, s') \<Longrightarrow> r \<noteq> ''''"
  by (auto simp: serializeArray_def Let_def assignIndexedValue_def
           split: if_splits sum.splits prod.splits)

lemma serializeObject_nonempty:
  "serializeObject c ser i kvs len flag s = Inr (r, s') \<Longrightarrow> r \<noteq> ''''"
  by (auto simp: serializeObject_def Let_def assignIndexedValue_def
           split: if_splits sum.splits prod.splits dest: serializeProperties_nonempty)

lemma serializeSet_nonempty:
  "serializeSet c ser i len a s = Inr (r, s') \<Longrightarrow> r \<noteq> ''''"
  by (auto simp: serializeSet_def assignIndexedValue_def
           split: if_splits sum.splits prod.splits)

lemma serializeMap_nonempty:
  "serializeMap c ser i kvs len s = Inr (r, s') \<Longrightarrow> r \<noteq> ''''"
  by (auto simp: serializeMap_def assignIndexedValue_def
           split: if_splits sum.splits prod.splits)

lemma CONSTANT_STRING_nonempty [simp]: "CONSTANT_STRING k \<noteq> ''''"
  by (cases k) simp_all

text \<open>
  The three facts about a call of \<open>serialize\<close> that returns, in one induction over the
  calls: the stack is the one at entry, the assignments have only grown, and the text is
  not empty if none of the texts it builds on is.
\<close>

definition keeps_all :: "ctx \<Rightarrow> serializer \<Rightarrow> bool" where
  "keeps_all c ser \<longleftrightarrow> keeps_stack ser \<and> keeps_text c ser"

lemma keeps_allI:
  assumes "\<And>n s r s'. ser n s = Inr (r, s')
             \<Longrightarrow> stack s' = stack s \<and> steps c s s' \<and> (texts_ok c s \<longrightarrow> r \<noteq> '''')"
  shows "keeps_all c ser"
  unfolding keeps_all_def keeps_stack_def keeps_text_def using assms by blast

lemma serialize_invariants:
  "serialize c n s = Inr (r, s')
   \<Longrightarrow> stack s' = stack s \<and> steps c s s' \<and> (texts_ok c s \<longrightarrow> r \<noteq> '''')"
proof (induction c n s arbitrary: r s' rule: serialize.induct)
  case (2 c n s)
  then show ?case by (auto simp: texts_ok_def)
next
  case (5 c i s)
  then show ?case
    by (auto simp: getRefParam_eq steps_def texts_ok_def markRef_def
             split: option.splits if_splits)
next
  case (6 c i r s)
  then show ?case by (auto simp: serializeReference_def)
next
  case (14 c i bytes s)
  then show ?case by (auto simp: serializeArrayBuffer_def)
next
  case (21 c i sy s)
  then show ?case by (auto simp: texts_ok_def assignIndexedValue_def split: if_splits)
next
  case (7 c i l a flag s)
  define ser where "ser = (\<lambda>n st. if Some n \<in> set a then serialize c n st else Inl TypeError)"
  have "keeps_all c ser"
    by (rule keeps_allI) (auto simp: ser_def split: if_splits dest: "7.IH")
  then have k: "keeps_stack ser" and kt: "keeps_text c ser" by (simp_all add: keeps_all_def)
  have "serializeArray c (serialize c) i l a flag s
      = serializeArray c ser i l a flag s"
    by (rule serializeArray_cong) (simp add: ser_def)
  with "7.prems" have e: "serializeArray c ser i l a flag s = Inr (r, s')" by simp
  from serializeArray_stack [OF k e] serializeArray_steps [OF kt e] serializeArray_nonempty [OF e]
  show ?case by simp
next
  case (8 c i kvs len flag s)
  define ser where "ser = (\<lambda>n st. if n \<in> snd ` set kvs then serialize c n st else Inl TypeError)"
  have "keeps_all c ser"
    by (rule keeps_allI) (auto simp: ser_def split: if_splits dest: "8.IH")
  then have k: "keeps_stack ser" and kt: "keeps_text c ser" by (simp_all add: keeps_all_def)
  have "serializeObject c (serialize c) i kvs len flag s
      = serializeObject c ser i kvs len flag s"
    by (rule serializeObject_cong) (force simp: ser_def)
  with "8.prems" have e: "serializeObject c ser i kvs len flag s = Inr (r, s')" by simp
  from serializeObject_stack [OF k e] serializeObject_steps [OF kt e] serializeObject_nonempty [OF e]
  show ?case by simp
next
  case (12 c i l a s)
  define ser where "ser = (\<lambda>n st. if n \<in> set a then serialize c n st else Inl TypeError)"
  have "keeps_all c ser"
    by (rule keeps_allI) (auto simp: ser_def split: if_splits dest: "12.IH")
  then have k: "keeps_stack ser" and kt: "keeps_text c ser" by (simp_all add: keeps_all_def)
  have "serializeSet c (serialize c) i l a s
      = serializeSet c ser i l a s"
    by (rule serializeSet_cong) (simp add: ser_def)
  with "12.prems" have e: "serializeSet c ser i l a s = Inr (r, s')" by simp
  from serializeSet_stack [OF k e] serializeSet_steps [OF kt e] serializeSet_nonempty [OF e]
  show ?case by simp
next
  case (13 c i kvs len s)
  define ser where "ser = (\<lambda>n st. if n \<in> fst ` set kvs \<union> snd ` set kvs then serialize c n st else Inl TypeError)"
  have "keeps_all c ser"
    by (rule keeps_allI) (auto simp: ser_def split: if_splits dest: "13.IH")
  then have k: "keeps_stack ser" and kt: "keeps_text c ser" by (simp_all add: keeps_all_def)
  have "serializeMap c (serialize c) i kvs len s
      = serializeMap c ser i kvs len s"
    by (rule serializeMap_cong) (force simp: ser_def)+
  with "13.prems" have e: "serializeMap c ser i kvs len s = Inr (r, s')" by simp
  from serializeMap_stack [OF k e] serializeMap_steps [OF kt e] serializeMap_nonempty [OF e]
  show ?case by simp
next
  case (20 c i resolved f s)
  define ser where "ser = (\<lambda>n st. if n = f then serialize c n st else Inl TypeError)"
  have "keeps_all c ser"
    by (rule keeps_allI) (auto simp: ser_def split: if_splits dest: "20.IH")
  then have k: "keeps_stack ser" and kt: "keeps_text c ser" by (simp_all add: keeps_all_def)
  have "serializePromise c (serialize c) i resolved f s
      = serializePromise c ser i resolved f s"
    by (rule serializePromise_cong) (simp add: ser_def)
  with "20.prems" have e: "serializePromise c ser i resolved f s = Inr (r, s')" by simp
  from serializePromise_stack [OF k e] serializePromise_steps [OF kt e] serializePromise_nonempty [OF e]
  show ?case by simp
next
  case (27 c i kvs len s)
  define ser where "ser = (\<lambda>n st. if n \<in> snd ` set kvs then serialize c n st else Inl TypeError)"
  have "keeps_all c ser"
    by (rule keeps_allI) (auto simp: ser_def split: if_splits dest: "27.IH")
  then have k: "keeps_stack ser" and kt: "keeps_text c ser" by (simp_all add: keeps_all_def)
  have "serializeFormData c (serialize c) i kvs len s
      = serializeFormData c ser i kvs len s"
    by (rule serializeFormData_cong) (force simp: ser_def)
  with "27.prems" have e: "serializeFormData c ser i kvs len s = Inr (r, s')" by simp
  from serializeFormData_stack [OF k e] serializeFormData_steps [OF kt e] serializeFormData_nonempty [OF e]
  show ?case by simp
next
  case (9 c i kvs len flag s)
  define ser where
    "ser = (\<lambda>n st. if n \<in> snd ` set kvs then serialize c n st else Inl TypeError)"
  have "keeps_all c ser"
    by (rule keeps_allI) (auto simp: ser_def split: if_splits dest: "9.IH")
  then have k: "keeps_stack ser" and kt: "keeps_text c ser" by (simp_all add: keeps_all_def)
  have "serializeNullConstructor c (serialize c) i kvs len flag s
      = serializeNullConstructor c ser i kvs len flag s"
    by (rule serializeNullConstructor_cong) (force simp: ser_def)
  with "9.prems" have e: "serializeNullConstructor c ser i kvs len flag s = Inr (r, s')" by simp
  then have d: "serializeDictionary c ser i (Some (kvs, len)) ''Object.create(null)''
                  (pushObjectFlag c flag i s) = Inr (r, s')"
    by (simp add: serializeNullConstructor_def)
  from serializeNullConstructor_stack [OF k e] serializeDictionary_steps [OF kt d]
    serializeDictionary_nonempty [OF d]
  show ?case by simp
next
  case (18 c i m p s)
  define ser where
    "ser = (\<lambda>n st. if (\<exists>kvs len. p = Some (kvs, len) \<and> n \<in> snd ` set kvs)
                    then serialize c n st else Inl TypeError)"
  have "keeps_all c ser"
    by (rule keeps_allI) (auto simp: ser_def split: if_splits dest: "18.IH")
  then have k: "keeps_stack ser" and kt: "keeps_text c ser" by (simp_all add: keeps_all_def)
  have "serializeDictionary c (serialize c) i p init st = serializeDictionary c ser i p init st"
    for init st
    by (rule serializeDictionary_cong) (force simp: ser_def)
  with "18.prems" have e:
    "serializeDictionary c ser i p (''new AggregateError([],\"'' @ m @ ''\")'')
       (stack_pop (stack_push i s)) = Inr (r, s')" by simp
  from serializeDictionary_stack [OF k e] serializeDictionary_steps [OF kt e]
    serializeDictionary_nonempty [OF e]
  show ?case by simp
next
  case (19 c i ec m p s)
  define ser where
    "ser = (\<lambda>n st. if (\<exists>kvs len. p = Some (kvs, len) \<and> n \<in> snd ` set kvs)
                    then serialize c n st else Inl TypeError)"
  have "keeps_all c ser"
    by (rule keeps_allI) (auto simp: ser_def split: if_splits dest: "19.IH")
  then have k: "keeps_stack ser" and kt: "keeps_text c ser" by (simp_all add: keeps_all_def)
  have "serializeDictionary c (serialize c) i p init st = serializeDictionary c ser i p init st"
    for init st
    by (rule serializeDictionary_cong) (force simp: ser_def)
  with "19.prems" have e:
    "serializeDictionary c ser i p
       (''new '' @ ERROR_CONSTRUCTOR_STRING c ec @ ''(\"'' @ m @ ''\")'') s = Inr (r, s')" by simp
  from serializeDictionary_stack [OF k e] serializeDictionary_steps [OF kt e]
    serializeDictionary_nonempty [OF e]
  show ?case by simp
next
  case (26 c i kvs len s)
  define ser where
    "ser = (\<lambda>n st. if n \<in> snd ` set kvs then serialize c n st else Inl TypeError)"
  have "keeps_all c ser"
    by (rule keeps_allI) (auto simp: ser_def split: if_splits dest: "26.IH")
  then have k: "keeps_stack ser" and kt: "keeps_text c ser" by (simp_all add: keeps_all_def)
  have "serializeProperties c (serialize c) i kvs len s = serializeProperties c ser i kvs len s"
    by (rule serializeProperties_cong) (force simp: ser_def)
  with "26.prems" obtain r0 where
    e: "serializeProperties c ser i kvs len s = Inr (r0, s')" and
    r: "r = assignIndexedValue c i (''new Headers('' @ r0 @ '')'') s'"
    by (auto split: sum.splits prod.splits)
  from serializeProperties_stack [OF k e] serializeProperties_steps [OF kt e] r
  show ?case by simp
next
  case (30 c i body opts s)
  from "30.prems" obtain r0 s1 r1 where
    a: "serialize c body s = Inr (r0, s1)" and b: "serialize c opts s1 = Inr (r1, s')" and
    r: "r = assignIndexedValue c i (''new Response('' @ r0 @ '','' @ r1 @ '')'') s'"
    by (auto split: sum.splits prod.splits)
  from "30.IH"(1) [OF a] "30.IH"(2) [OF a refl b] r show ?case
    by (auto intro: steps_trans)
qed (auto simp: quoted_def split: sum.splits prod.splits)

section \<open>A context and nodes to run the serializer on\<close>

text \<open>
  The feature mask \<open>ALL\<close>; callers pass the disabled features, and the enabled ones are
  \<open>ALL & ~disabled\<close>.
\<close>

definition ALL_FEATURES :: "feature set" where
  "ALL_FEATURES =
     {Feature_AggregateError, Feature_ArrayPrototypeValues, Feature_ArrowFunction, Feature_BigInt,
      Feature_BigIntTypedArray, Feature_ErrorPrototypeStack, Feature_Map, Feature_MethodShorthand,
      Feature_ObjectAssign, Feature_Promise, Feature_Set, Feature_Symbol, Feature_TypedArray,
      Feature_WebAPI}"

definition enabled_features :: "feature set \<Rightarrow> feature set" where
  "enabled_features disabled = ALL_FEATURES - disabled"

text \<open>
  Values for the parts of the context that lie outside the sources, used where a
  theorem is run on a concrete node: names \<open>v0, v1, ...\<close>, the assignments of the glossary
  (\<open>obj.k = v\<close>, \<open>arr[i]=v\<close>, \<open>m.set(k,v)\<close>, \<open>s.add(v)\<close>) each followed by a comma, and the
  names of the error constructors.
\<close>

fun assignment_expression :: "assignment \<Rightarrow> string" where
  "assignment_expression (Assignment AssignIndex s k v) = s @ ''='' @ v"
| "assignment_expression (Assignment AssignAdd s k v) = s @ ''.add('' @ v @ '')''"
| "assignment_expression (Assignment AssignSet s k v) =
     s @ ''.set('' @ (case k of None \<Rightarrow> ''undefined'' | Some key \<Rightarrow> key) @ '','' @ v @ '')''"

definition example_resolveAssignments :: "assignment list \<Rightarrow> string option" where
  "example_resolveAssignments xs =
     (if xs = [] then None else Some (concat (map (\<lambda>a. assignment_expression a @ '','') xs)))"

fun example_error_name :: "error_constructor \<Rightarrow> string" where
  "example_error_name ErrError = ''Error''"
| "example_error_name ErrEvalError = ''EvalError''"
| "example_error_name ErrRangeError = ''RangeError''"
| "example_error_name ErrReferenceError = ''ReferenceError''"
| "example_error_name ErrSyntaxError = ''SyntaxError''"
| "example_error_name ErrTypeError = ''TypeError''"
| "example_error_name ErrURIError = ''URIError''"

text \<open>
  The host's \<open>Number(key)\<close> on the keys of the examples: the empty text is \<open>0\<close>, a text of
  decimal digits with an optional sign is that integer (\<open>-0\<close> for a negative zero),
  \<open>Infinity\<close> with an optional sign is the infinity, and a text with no numeric reading
  is \<open>NaN\<close>. Numeric texts with a fraction, an exponent, a radix prefix or white space
  around them are not among the keys of the examples.
\<close>

definition digit_of :: "char \<Rightarrow> nat option" where
  "digit_of ch =
     (let k = (of_char ch :: nat) in if 48 \<le> k \<and> k \<le> 57 then Some (k - 48) else None)"

fun digits_value :: "string \<Rightarrow> nat \<Rightarrow> nat option" where
  "digits_value [] acc = Some acc"
| "digits_value (ch # cs) acc =
     (case digit_of ch of None \<Rightarrow> None | Some d \<Rightarrow> digits_value cs (10 * acc + d))"

definition example_toNumber :: "string \<Rightarrow> jsnumber" where
  "example_toNumber key =
     (if key = ''Infinity'' \<or> key = ''+Infinity'' then PositiveInfinity
      else if key = ''-Infinity'' then NegativeInfinity
      else case key of
        [] \<Rightarrow> Finite 0
      | ch # cs \<Rightarrow>
          if ch = CHR ''-'' \<and> cs \<noteq> [] then
            (case digits_value cs 0 of
               None \<Rightarrow> NaN
             | Some n \<Rightarrow> if n = 0 then NegativeZero else Finite (- int n))
          else if ch = CHR ''+'' \<and> cs \<noteq> [] then
            (case digits_value cs 0 of None \<Rightarrow> NaN | Some n \<Rightarrow> Finite (int n))
          else
            (case digits_value key 0 of None \<Rightarrow> NaN | Some n \<Rightarrow> Finite (int n)))"

text \<open>
  \<open>isValidIdentifier\<close>: a letter, \<open>$\<close> or \<open>_\<close>, followed by letters, digits, \<open>$\<close> and \<open>_\<close>.
\<close>

definition identifier_start :: "char \<Rightarrow> bool" where
  "identifier_start ch =
     (let k = (of_char ch :: nat)
      in (65 \<le> k \<and> k \<le> 90) \<or> (97 \<le> k \<and> k \<le> 122) \<or> ch = CHR ''$'' \<or> ch = CHR ''_'')"

definition example_isValidIdentifier :: "string \<Rightarrow> bool" where
  "example_isValidIdentifier key =
     (case key of
        [] \<Rightarrow> False
      | ch # cs \<Rightarrow>
          identifier_start ch \<and> list_all (\<lambda>x. identifier_start x \<or> digit_of x \<noteq> None) cs)"

text \<open>
  The numbers of the examples are integers below \<open>1e21\<close> in magnitude, which the host
  prints as decimal digits.
\<close>

definition example_ctx :: "feature set \<Rightarrow> ctx" where
  "example_ctx fs =
     \<lparr>features = fs,
      refName = (\<lambda>i. ''v'' @ show_nat i),
      REFERENCES_KEY = ''__SEROVAL_REFS__'',
      ERROR_CONSTRUCTOR_STRING = example_error_name,
      SYMBOL_STRING = (\<lambda>_. ''Symbol.iterator''),
      resolveAssignments = example_resolveAssignments,
      isValidIdentifier = example_isValidIdentifier,
      toNumber = example_toNumber,
      numberToString = show_int\<rparr>"

text \<open>The state of a fresh context: the constructor copies \<open>markedRefs\<close> and nothing else.\<close>

definition initial_sstate :: "nat set \<Rightarrow> sstate" where
  "initial_sstate markedRefs =
     \<lparr>stack = [], flags = [], assignments = [], marked = markedRefs, deferred = Map.empty\<rparr>"

lemma example_texts_ok: "texts_ok (example_ctx fs) (initial_sstate m)"
proof -
  have "show_nat n \<noteq> ''''" for n by (subst show_nat.simps) simp
  then show ?thesis
    by (simp add: texts_ok_def example_ctx_def initial_sstate_def show_int_def)
qed

lemmas serializer_defs =
  serializeArray_def serializeArrayItem_def serializeMap_def serializeMapEntry_def
  serializeItems_def serializeObject_def serializeProperties_def serializeProperty_def
  serializeSet_def serializeSetItem_def serializePromise_def serializeIterable_def
  serializeDictionary_def serializeNullConstructor_def serializeWithObjectAssign_def
  serializeAssignments_def serializeAssignment_def serializeReference_def
  getIterableAccess_def quoted_def
  isIndexedValueInStack_def node_i_def getRefParam_def markRef_def isMarked_def
  assignIndexedValue_def pushObjectFlag_def createSetAssignment_def createArrayAssign_def
  createAddAssignment_def createObjectAssign_def
  createAssignment_def stack_push_def stack_pop_def defer_value_def
  example_ctx_def initial_sstate_def ALL_FEATURES_def enabled_features_def
  example_resolveAssignments_def show_nat.simps show_int_def digit_char_def Let_def

text \<open>
  A tree with a cycle, a shared object and an iterable, as the parser builds it for
  \<^verbatim>\<open>const o = {}; const a = [o, , a, new Set([a, o])]; a.it = ...\<close>: the array 0 holds
  the object 1, a hole, itself, and the set 2 of itself and the object.
\<close>

definition cyclic_array :: node where
  "cyclic_array =
     ArrayNode 0 4
       [Some (ObjectNode 1 [(Key ''x'', NumberNode 1)] 1 FlagFrozen),
        None,
        Some (IndexedValueNode 0),
        Some (SetNode 2 2 [IndexedValueNode 0, IndexedValueNode 1])]
       FlagNone"

text \<open>What a run of a method shows from outside: its string, and the stack and the
  assignments of the state it leaves.\<close>

definition outcome :: "'a result \<Rightarrow> js_error + ('a \<times> nat list \<times> assignment list)" where
  "outcome res = (case res of Inl e \<Rightarrow> Inl e | Inr (r, s) \<Rightarrow> Inr (r, stack s, assignments s))"

lemma outcome_InrD:
  "outcome res = Inr (r, st, asg) \<Longrightarrow> \<exists>s'. res = Inr (r, s') \<and> stack s' = st \<and> assignments s' = asg"
  by (auto simp: outcome_def split: sum.splits prod.splits)

theorem serialize_restores_stack_witness:
  "\<exists>r s'. serialize (example_ctx ALL_FEATURES) cyclic_array
              ((initial_sstate {0, 1})\<lparr>stack := [7]\<rparr>) = Inr (r, s')
          \<and> r = ''v0=[v1={x:1},,,v2=new Set([v1])]''
          \<and> stack s' = stack ((initial_sstate {0, 1})\<lparr>stack := [7]\<rparr>)"
proof -
  have "outcome (serialize (example_ctx ALL_FEATURES) cyclic_array
                   ((initial_sstate {0, 1})\<lparr>stack := [7]\<rparr>))
          = Inr (''v0=[v1={x:1},,,v2=new Set([v1])]'', [7],
                 [Assignment AssignIndex ''v0[2]'' None ''v0'',
                  Assignment AssignAdd ''v2'' None ''v0''])"
    by code_simp
  then obtain s' where e:
    "serialize (example_ctx ALL_FEATURES) cyclic_array ((initial_sstate {0, 1})\<lparr>stack := [7]\<rparr>)
       = Inr (''v0=[v1={x:1},,,v2=new Set([v1])]'', s')"
    by (auto dest: outcome_InrD)
  from serialize_restores_stack [OF e] e show ?thesis by simp
qed

section \<open>Promises\<close>

text \<open>
  Claim C6. For a Promise node whose settled payload is an IndexedValue that is on the
  stack, the expression is \<open>Promise.resolve().then(()=>ref)\<close> for a resolved promise and
  \<open>Promise.reject().catch(()=>{throw ref})\<close> for a rejected one, with function
  expressions in place of the arrows when \<open>Feature.ArrowFunction\<close> is disabled; for a
  payload that is not on the stack the payload expression is inlined, as
  \<open>Promise.resolve(expr)\<close> or \<open>Promise.reject(expr)\<close>, after being serialized with the
  promise's id pushed. The expression goes through \<open>assignIndexedValue\<close>, which binds
  it to the promise's name when the promise is marked.
\<close>

theorem serializePromise_forms:
  "(j \<in> set (stack s) \<longrightarrow>
      serialize c (PromiseNode i resolved (IndexedValueNode j)) s =
        Inr (assignIndexedValue c i
               (if resolved then
                  (if Feature_ArrowFunction \<in> features c
                   then ''Promise.resolve().then(()=>'' @ refName c j @ '')''
                   else ''Promise.resolve().then(function(){return '' @ refName c j @ ''})'')
                else
                  (if Feature_ArrowFunction \<in> features c
                   then ''Promise.reject().catch(()=>{throw '' @ refName c j @ ''})''
                   else ''Promise.reject().catch(function(){throw '' @ refName c j @ ''})''))
               (markRef j s), markRef j s))
   \<and> (\<not> isIndexedValueInStack s f \<longrightarrow> serialize c f (stack_push i s) = Inr (expr, s1) \<longrightarrow>
        serialize c (PromiseNode i resolved f) s =
          Inr (assignIndexedValue c i
                 ((if resolved then ''Promise.resolve('' else ''Promise.reject('') @ expr @ '')'')
                 (stack_pop s1), stack_pop s1))"
proof (intro conjI impI)
  assume "j \<in> set (stack s)"
  then show "serialize c (PromiseNode i resolved (IndexedValueNode j)) s =
        Inr (assignIndexedValue c i
               (if resolved then
                  (if Feature_ArrowFunction \<in> features c
                   then ''Promise.resolve().then(()=>'' @ refName c j @ '')''
                   else ''Promise.resolve().then(function(){return '' @ refName c j @ ''})'')
                else
                  (if Feature_ArrowFunction \<in> features c
                   then ''Promise.reject().catch(()=>{throw '' @ refName c j @ ''})''
                   else ''Promise.reject().catch(function(){throw '' @ refName c j @ ''})''))
               (markRef j s), markRef j s)"
    by (simp add: serializePromise_def isIndexedValueInStack_def node_i_def getRefParam_def Let_def)
next
  assume "\<not> isIndexedValueInStack s f" and "serialize c f (stack_push i s) = Inr (expr, s1)"
  then show "serialize c (PromiseNode i resolved f) s =
          Inr (assignIndexedValue c i
                 ((if resolved then ''Promise.resolve('' else ''Promise.reject('') @ expr @ '')'')
                 (stack_pop s1), stack_pop s1)"
    by (simp add: serializePromise_def Let_def)
qed

theorem serializePromise_forms_witness:
  "serialize (example_ctx ALL_FEATURES) (PromiseNode 1 True (IndexedValueNode 0))
       ((initial_sstate {0})\<lparr>stack := [0]\<rparr>)
     = Inr (''Promise.resolve().then(()=>v0)'', markRef 0 ((initial_sstate {0})\<lparr>stack := [0]\<rparr>))
   \<and> serialize (example_ctx (enabled_features {Feature_ArrowFunction}))
       (PromiseNode 1 False (IndexedValueNode 0)) ((initial_sstate {0, 1})\<lparr>stack := [0]\<rparr>)
     = Inr (''v1=Promise.reject().catch(function(){throw v0})'',
            markRef 0 ((initial_sstate {0, 1})\<lparr>stack := [0]\<rparr>))
   \<and> serialize (example_ctx ALL_FEATURES) (PromiseNode 1 True (NumberNode 42))
       ((initial_sstate {})\<lparr>stack := [0]\<rparr>)
     = Inr (''Promise.resolve(42)'', stack_pop (stack_push 1 ((initial_sstate {})\<lparr>stack := [0]\<rparr>)))"
proof -
  have n: "show_int 42 = ''42''" "show_nat 0 = ''0''" "show_nat (Suc 0) = ''1''"
    by code_simp+
  have a: "Feature_ArrowFunction \<in> features (example_ctx ALL_FEATURES)"
          "Feature_ArrowFunction \<notin> features (example_ctx (enabled_features {Feature_ArrowFunction}))"
    by (simp_all add: example_ctx_def ALL_FEATURES_def enabled_features_def)
  have r: "refName (example_ctx fs) k = ''v'' @ show_nat k" for fs k
    by (simp add: example_ctx_def)
  have m: "stack ((initial_sstate ms)\<lparr>stack := [0]\<rparr>) = [0]"
          "marked (markRef k ((initial_sstate ms)\<lparr>stack := [0]\<rparr>)) = insert k ms"
          "marked (stack_pop (stack_push i ((initial_sstate ms)\<lparr>stack := [0]\<rparr>))) = ms"
    for ms k i
    by (simp_all add: initial_sstate_def markRef_def stack_pop_def stack_push_def)
  have w1: "serialize (example_ctx ALL_FEATURES) (PromiseNode 1 True (IndexedValueNode 0))
              ((initial_sstate {0})\<lparr>stack := [0]\<rparr>)
          = Inr (''Promise.resolve().then(()=>v0)'',
                 markRef 0 ((initial_sstate {0})\<lparr>stack := [0]\<rparr>))"
    using serializePromise_forms [where j = 0 and s = "(initial_sstate {0})\<lparr>stack := [0]\<rparr>"
            and c = "example_ctx ALL_FEATURES" and i = 1 and resolved = True, THEN conjunct1]
    by (simp add: a r n m assignIndexedValue_def isMarked_def del: serialize.simps)
  have w2: "serialize (example_ctx (enabled_features {Feature_ArrowFunction}))
              (PromiseNode 1 False (IndexedValueNode 0)) ((initial_sstate {0, 1})\<lparr>stack := [0]\<rparr>)
          = Inr (''v1=Promise.reject().catch(function(){throw v0})'',
                 markRef 0 ((initial_sstate {0, 1})\<lparr>stack := [0]\<rparr>))"
    using serializePromise_forms [where j = 0 and s = "(initial_sstate {0, 1})\<lparr>stack := [0]\<rparr>"
            and c = "example_ctx (enabled_features {Feature_ArrowFunction})" and i = 1
            and resolved = False, THEN conjunct1]
    by (simp add: a r n m assignIndexedValue_def isMarked_def del: serialize.simps)
  have e: "serialize (example_ctx ALL_FEATURES) (NumberNode 42)
             (stack_push 1 ((initial_sstate {})\<lparr>stack := [0]\<rparr>))
         = Inr (''42'', stack_push 1 ((initial_sstate {})\<lparr>stack := [0]\<rparr>))"
    by (simp add: n example_ctx_def)
  have w3: "serialize (example_ctx ALL_FEATURES) (PromiseNode 1 True (NumberNode 42))
              ((initial_sstate {})\<lparr>stack := [0]\<rparr>)
          = Inr (''Promise.resolve(42)'',
                 stack_pop (stack_push 1 ((initial_sstate {})\<lparr>stack := [0]\<rparr>)))"
    using serializePromise_forms [where s = "(initial_sstate {})\<lparr>stack := [0]\<rparr>"
            and c = "example_ctx ALL_FEATURES" and f = "NumberNode 42" and i = 1
            and resolved = True, THEN conjunct2, rule_format, OF _ e]
    by (simp add: m assignIndexedValue_def isMarked_def isIndexedValueInStack_def
             del: serialize.simps)
  from w1 w2 w3 show ?thesis by (intro conjI)
qed

section \<open>Map entries and the deferred map\<close>

text \<open>
  The value graph \<^verbatim>\<open>const k = {}; const m = new Map(); m.set(k, m);
  const m2 = new Map([[1, k]]); [m, m2]\<close> as the parser numbers it: the array 0, the
  map 1 whose key is the object 2 and whose value is the map itself, and the map 3 that
  holds the object 2 again. The parser marks the ids 1 and 2, which it met twice.
  \<open>map_value_then_alias\<close> is the mirror image, \<^verbatim>\<open>m.set(m, k)\<close>.
\<close>

definition map_key_then_alias :: node where
  "map_key_then_alias =
     ArrayNode 0 2
       [Some (MapNode 1 [(ObjectNode 2 [] 0 FlagNone, IndexedValueNode 1)] 1),
        Some (MapNode 3 [(NumberNode 1, IndexedValueNode 2)] 1)]
       FlagNone"

definition map_value_then_alias :: node where
  "map_value_then_alias =
     ArrayNode 0 2
       [Some (MapNode 1 [(IndexedValueNode 1, ObjectNode 2 [] 0 FlagNone)] 1),
        Some (MapNode 3 [(NumberNode 1, IndexedValueNode 2)] 1)]
       FlagNone"

text \<open>
  What a run leaves for the entry under test: the string, the assignments, and the
  entry of the deferred map for the id 2 once the whole tree is serialized.
\<close>

definition entry_outcome ::
  "string result \<Rightarrow> (string \<times> assignment list \<times> string option) option" where
  "entry_outcome res =
     (case res of Inl e \<Rightarrow> None | Inr (r, s) \<Rightarrow> Some (r, assignments s, deferred s 2))"

text \<open>
  When the value of an entry is on the stack and its key is not, \<open>serializeMapEntry\<close>
  tests \<open>val\<close> once more for being a marked node that is not an IndexedValue. The value
  is an IndexedValue, so the test fails for every key: the key is serialized in place,
  inside the \<open>set\<close> assignment, and \<open>defer\<close> is not called.
\<close>

lemma serializeMapEntry_value_on_stack:
  assumes "\<not> isIndexedValueInStack s k" and "isIndexedValueInStack s v"
  shows "serializeMapEntry c ser i k v s =
           (case ser k ((markRef i (markRef (node_i v) s))\<lparr>stack := []\<rparr>) of
              Inl e \<Rightarrow> Inl e
            | Inr (r, s4) \<Rightarrow>
                Inr ('''', (createSetAssignment c i r (refName c (node_i v)) s4)
                             \<lparr>stack := stack s\<rparr>))"
  using assms
  by (auto simp: serializeMapEntry_def isIndexedValueInStack_def getRefParam_def Let_def
           split: sum.splits prod.splits)

text \<open>
  The branch for a key on the stack does defer a marked value: the definition
  \<open>v2={}\<close> is stored under the id 2, the assignment names the value by its id, and the
  later occurrence of the id takes the definition out of the deferred map.
\<close>

lemma serializeMapEntry_key_on_stack_defers:
  "entry_outcome (serialize (example_ctx ALL_FEATURES) map_value_then_alias (initial_sstate {1, 2}))
     = Some (''[v1=new Map,new Map([[1,v2={}]])]'',
             [Assignment AssignSet ''v1'' (Some ''v1'') ''v2''], None)"
  by code_simp

text \<open>
  Claim C3, at the failing input. With the value on the stack and a marked key, the
  claim has the key's definition stored in the deferred map and the assignment refer
  to the key by its id, so that the later occurrence of the id 2 emits the definition:
  \<open>[v1=new Map,new Map([[1,v2={}]])]\<close> with the patch \<open>v1.set(v2,v1)\<close>. The code instead
  puts the definition inside the patch and emits the bare name \<open>v2\<close> in the second map,
  where it is read before the patch has bound it.
\<close>

theorem serializeMapEntry_marked_key_not_deferred:
  "entry_outcome (serialize (example_ctx ALL_FEATURES) map_key_then_alias (initial_sstate {1, 2}))
     = Some (''[v1=new Map,new Map([[1,v2]])]'',
             [Assignment AssignSet ''v1'' (Some ''v2={}'') ''v1''], None)"
  by code_simp

section \<open>Array literals\<close>

text \<open>
  The text of an array literal with the given slots: the slots separated by commas
  between brackets, and one more comma before the closing bracket if \<open>trailing\<close>. With
  no slot the text is \<open>[]\<close>.
\<close>

fun comma_tail :: "string list \<Rightarrow> string" where
  "comma_tail [] = ''''"
| "comma_tail (x # xs) = '','' @ x @ comma_tail xs"

definition join_commas :: "string list \<Rightarrow> string" where
  "join_commas slots = (case slots of [] \<Rightarrow> '''' | x # xs \<Rightarrow> x @ comma_tail xs)"

definition array_literal :: "string list \<Rightarrow> bool \<Rightarrow> string" where
  "array_literal slots trailing =
     ''['' @ join_commas slots @ (if trailing then '',]'' else '']'')"

text \<open>
  The number of elements the host counts in such a literal. An empty slot is a hole
  and counts, except the last one when no comma follows it: the comma after the last
  element of a literal adds no element.
\<close>

definition literal_length :: "string list \<Rightarrow> bool \<Rightarrow> nat" where
  "literal_length slots trailing =
     (if slots = [] then 0
      else if last slots = '''' \<and> \<not> trailing then length slots - 1
      else length slots)"

lemma serializeArrayItem_hole:
  "serializeArrayItem c ser i None index s = Inr ('''', s)"
  by (simp add: serializeArrayItem_def)

text \<open>
  What \<open>serializeArray\<close> puts into the slot of index \<open>k\<close> for the entry \<open>x\<close> of \<open>node.a\<close>,
  where \<open>s\<close> is a state with the stack of the loop and \<open>s'\<close> the state the method leaves.
  A hole gives the empty slot. A reference back to an id on the stack gives the empty
  slot as well, and the assignment that fills the index afterwards. Every other node
  gives the text \<open>ser\<close> returns for it, called on the stack of the loop.
\<close>

definition slot_ok ::
  "ctx \<Rightarrow> serializer \<Rightarrow> nat \<Rightarrow> sstate \<Rightarrow> sstate \<Rightarrow> nat \<Rightarrow> node option \<Rightarrow> string \<Rightarrow> bool" where
  "slot_ok c ser i s s' k x slot \<longleftrightarrow>
     (case x of
        None \<Rightarrow> slot = ''''
      | Some nd \<Rightarrow>
          if isIndexedValueInStack s nd then
            slot = ''''
            \<and> Assignment AssignIndex (refName c i @ ''['' @ show_nat k @ '']'') None
                 (refName c (node_i nd)) \<in> set (assignments s')
          else (\<exists>s0 s1. stack s0 = stack s \<and> ser nd s0 = Inr (slot, s1))
               \<and> (texts_ok c s \<longrightarrow> slot \<noteq> ''''))"

lemma slot_ok_from:
  "slot_ok c ser i s1 s' k x slot \<Longrightarrow> stack s1 = stack s \<Longrightarrow> steps c s s1
   \<Longrightarrow> slot_ok c ser i s s' k x slot"
  by (auto simp: slot_ok_def isIndexedValueInStack_def steps_def split: option.splits if_splits)

lemma slot_ok_to:
  "slot_ok c ser i s s1 k x slot \<Longrightarrow> steps c s1 s' \<Longrightarrow> slot_ok c ser i s s' k x slot"
  by (auto simp: slot_ok_def steps_def split: option.splits if_splits dest: set_mono_prefix)

lemma serializeArrayItem_slot:
  assumes "keeps_all c ser" and "serializeArrayItem c ser i x index s = Inr (item, s1)"
  shows "slot_ok c ser i s s1 index x item"
proof -
  from assms(1) have kt: "keeps_text c ser" by (simp add: keeps_all_def)
  show ?thesis
    using assms(2) keeps_text_nonempty [OF kt]
    by (auto simp: slot_ok_def serializeArrayItem_def Let_def getRefParam_eq
          createArrayAssign_def createAssignment_def
          split: option.splits if_splits)
qed

lemma serializeArrayLoop_slots:
  assumes "keeps_all c ser"
  shows "serializeArrayLoop c ser i xs index n vals h s = Inr ((vals', h'), s')
   \<Longrightarrow> \<exists>slots. length slots = n
          \<and> vals' = vals @ comma_tail slots
          \<and> h' = (if slots = [] then h else last slots = '''')
          \<and> (\<forall>k<n. slot_ok c ser i s s' (index + k)
                       (if k < length xs then xs ! k else None) (slots ! k))"
  using assms
proof (induction c ser i xs index n vals h s arbitrary: vals' h' s'
       rule: serializeArrayLoop.induct)
  case (1 c ser i xs index vals isHoley s)
  then show ?case by simp
next
  case (2 c ser i index n vals isHoley s)
  from "2.prems" have
    b: "serializeArrayLoop c ser i [] (index + 1) n (vals @ '','' @ '''') ('''' = '''') s
          = Inr ((vals', h'), s')"
    by (simp add: serializeArrayItem_hole)
  from "2.IH" [OF serializeArrayItem_hole refl b "2.prems"(2)] show ?case
  proof (elim exE conjE)
    fix slots
    assume s: "length slots = n" "vals' = (vals @ '','' @ '''') @ comma_tail slots"
       "h' = (if slots = [] then '''' = '''' else last slots = '''')"
       "\<forall>k<n. slot_ok c ser i s s' (index + 1 + k)
                 (if k < length [] then [] ! k else None) (slots ! k)"
    show ?thesis
    proof (intro exI [of _ "'''' # slots"] conjI allI impI)
      fix k assume "k < Suc n"
      then show "slot_ok c ser i s s' (index + k)
                   (if k < length [] then [] ! k else None) (('''' # slots) ! k)"
        using s(4) by (cases k) (auto simp: slot_ok_def)
    next
      show "length ('''' # slots) = Suc n" using s(1) by simp
      show "vals' = vals @ comma_tail ('''' # slots)" using s(2) by simp
      show "h' = (if '''' # slots = [] then isHoley else last ('''' # slots) = '''')"
        using s(3) by simp
    qed
  qed
next
  case (3 c ser i x xs index n vals isHoley s)
  from "3.prems"(2) have k: "keeps_stack ser" and kt: "keeps_text c ser"
    by (simp_all add: keeps_all_def)
  from "3.prems"(1) obtain item s1 where
    a: "serializeArrayItem c ser i x index s = Inr (item, s1)" and
    b: "serializeArrayLoop c ser i xs (index + 1) n (vals @ '','' @ item) (item = '''') s1
          = Inr ((vals', h'), s')"
    by (auto split: sum.splits prod.splits)
  have st: "stack s1 = stack s" by (rule serializeArrayItem_stack [OF k a])
  have sa: "steps c s s1" by (rule serializeArrayItem_steps [OF kt a])
  have sb: "steps c s1 s'" by (rule serializeArrayLoop_steps [OF kt b])
  have first: "slot_ok c ser i s s' index x item"
    by (rule slot_ok_to [OF serializeArrayItem_slot [OF "3.prems"(2) a] sb])
  from "3.IH" [OF a refl b "3.prems"(2)] show ?case
  proof (elim exE conjE)
    fix slots
    assume s: "length slots = n" "vals' = (vals @ '','' @ item) @ comma_tail slots"
       "h' = (if slots = [] then item = '''' else last slots = '''')"
       "\<forall>k<n. slot_ok c ser i s1 s' (index + 1 + k)
                 (if k < length xs then xs ! k else None) (slots ! k)"
    show ?thesis
    proof (intro exI [of _ "item # slots"] conjI allI impI)
      fix k assume kn: "k < Suc n"
      show "slot_ok c ser i s s' (index + k)
              (if k < length (x # xs) then (x # xs) ! k else None) ((item # slots) ! k)"
      proof (cases k)
        case 0
        with first show ?thesis by simp
      next
        case (Suc j)
        with kn s(4) have "slot_ok c ser i s1 s' (index + 1 + j)
                 (if j < length xs then xs ! j else None) (slots ! j)" by simp
        from slot_ok_from [OF this st sa] Suc show ?thesis by (auto split: if_splits)
      qed
    next
      show "length (item # slots) = Suc n" using s(1) by simp
      show "vals' = vals @ comma_tail (item # slots)" using s(2) by simp
      show "h' = (if item # slots = [] then isHoley else last (item # slots) = '''')"
        using s(3) by simp
    qed
  qed
qed

lemma serializeArray_slots:
  assumes "keeps_all c ser" and "serializeArray c ser i l a flag s = Inr (r, s')"
  shows "\<exists>slots. r = assignIndexedValue c i
                         (array_literal slots (slots \<noteq> [] \<and> last slots = '''')) s'
           \<and> length slots = l
           \<and> (\<forall>k<l. slot_ok c ser i (stack_push i s) s' k
                        (if k < length a then a ! k else None) (slots ! k))"
proof (cases "l = 0")
  case True
  with assms(2) show ?thesis
    by (intro exI [of _ "[]"])
       (auto simp: serializeArray_def array_literal_def join_commas_def)
next
  case False
  from assms(1) have k: "keeps_stack ser" and kt: "keeps_text c ser"
    by (simp_all add: keeps_all_def)
  let ?first = "case a of [] \<Rightarrow> None | x # _ \<Rightarrow> x"
  from assms(2) False obtain item s1 vals' h' s2 where
    a: "serializeArrayItem c ser i ?first 0 (stack_push i s) = Inr (item, s1)" and
    b: "serializeArrayLoop c ser i (tl a) 1 (l - 1) item (item = '''') s1 = Inr ((vals', h'), s2)" and
    c: "s' = pushObjectFlag c flag i (stack_pop s2)" and
    r: "r = assignIndexedValue c i (''['' @ vals' @ (if h' then '',]'' else '']'')) s'"
    by (auto simp: serializeArray_def Let_def split: sum.splits prod.splits)
  have st: "stack s1 = stack (stack_push i s)" by (rule serializeArrayItem_stack [OF k a])
  have sa: "steps c (stack_push i s) s1" by (rule serializeArrayItem_steps [OF kt a])
  have sb: "steps c s1 s2" by (rule serializeArrayLoop_steps [OF kt b])
  have sc: "steps c s2 s'" by (simp add: c)
  have first: "slot_ok c ser i (stack_push i s) s' 0 ?first item"
    by (rule slot_ok_to [OF serializeArrayItem_slot [OF assms(1) a] steps_trans [OF sb sc]])
  from serializeArrayLoop_slots [OF assms(1) b] show ?thesis
  proof (elim exE conjE)
    fix slots
    assume s: "length slots = l - 1" "vals' = item @ comma_tail slots"
       "h' = (if slots = [] then item = '''' else last slots = '''')"
       "\<forall>k<l - 1. slot_ok c ser i s1 s2 (1 + k)
                     (if k < length (tl a) then tl a ! k else None) (slots ! k)"
    have lit: "array_literal (item # slots) (item # slots \<noteq> [] \<and> last (item # slots) = '''')
                 = ''['' @ vals' @ (if h' then '',]'' else '']'')"
      using s(2,3) by (simp add: array_literal_def join_commas_def)
    show ?thesis
    proof (intro exI [of _ "item # slots"] conjI allI impI)
      show "r = assignIndexedValue c i
                  (array_literal (item # slots)
                     (item # slots \<noteq> [] \<and> last (item # slots) = '''')) s'"
        unfolding r lit ..
      show "length (item # slots) = l" using s(1) False by simp
    next
      fix k assume kl: "k < l"
      show "slot_ok c ser i (stack_push i s) s' k
              (if k < length a then a ! k else None) ((item # slots) ! k)"
      proof (cases k)
        case 0
        with first show ?thesis by (cases a) simp_all
      next
        case (Suc j)
        with kl s(4) have "slot_ok c ser i s1 s2 (1 + j)
                     (if j < length (tl a) then tl a ! j else None) (slots ! j)" by simp
        from slot_ok_from [OF slot_ok_to [OF this sc] st sa] Suc show ?thesis
          by (cases a) (auto split: if_splits)
      qed
    qed
  qed
qed

lemma literal_length_array:
  "literal_length slots (slots \<noteq> [] \<and> last slots = '''') = length slots"
  by (simp add: literal_length_def)

section \<open>Values of the host\<close>

text \<open>
  The input of a parse is a value of the host: a primitive, or a reference to an object
  of the heap, which is what gives objects an identity. Numbers are the \<open>jsnumber\<close> of
  the serializer context. Values of type symbol and function go to helpers that are not part
  of the sources (\<open>parseSymbol\<close>, \<open>parseFunction\<close>) and are left out, and so are typed
  arrays, buffers, \<open>AggregateError\<close> and the web-API classes, whose generators rest on
  such helpers.

  An object carries what the parsers read from it: an array its elements (\<open>None\<close> is a
  hole) and its integrity state; a plain object whether it is prototype-free, its own
  enumerable string-keyed properties in insertion order, the items its iterator yields
  if it has one, and its integrity state; a boxed primitive its \<open>valueOf()\<close>; a date its
  \<open>toISOString()\<close>; a regular expression its source and flags; an error of one of the
  seven built-in classes its message and what \<open>getErrorOptions\<close> returns for it; a map
  its entries; a set its items; a promise its settlement (the parser awaits it); and an
  object of any other class its properties and iterator items.
\<close>

type_synonym addr = nat

datatype jsval =
    JUndefined | JNull | JBoolean bool | JNumber jsnumber | JString string | JBigInt int
  | JObject addr

datatype jsobject =
    ArrayObj "jsval option list" object_flag
  | PlainObj bool "(string \<times> jsval) list" "jsval list option" object_flag
  | BoxedObj jsval
  | DateObj string
  | RegExpObj string string
  | ErrorObj error_constructor string "(string \<times> jsval) list option"
  | MapObj "(jsval \<times> jsval) list" object_flag
  | SetObj "jsval list" object_flag
  | PromiseObj bool jsval
  | OtherObj "(string \<times> jsval) list" "jsval list option" object_flag

text \<open>
  What a parse takes from outside the sources and does not change: the feature matrix,
  the reference registry (\<open>hasReferenceID\<close>, \<open>getReferenceID\<close>), \<open>isIterable\<close> of
  \<open>shared.ts\<close>, and the string encoder \<open>serializeString\<close>.
\<close>

record penv =
  pfeatures :: "feature set"
  referenceID :: "addr \<Rightarrow> string option"
  isIterable :: "jsval \<Rightarrow> bool"
  serializeString :: "string \<Rightarrow> string"

text \<open>
  The state of a parse: the heap (an address is an index; the parser itself allocates
  the arrays that \<open>Array.from\<close> builds), the map from objects to ids in insertion order
  (\<open>ctx.refs\<close> of the cross parser, the id map behind \<open>createIndexedValue\<close> in the others),
  and the marked ids of the tree parsers.
\<close>

record pstate =
  heap :: "jsobject list"
  refs :: "(addr \<times> nat) list"
  pmarked :: "nat set"

type_synonym 'a presult = "js_error + ('a \<times> pstate)"

type_synonym parser = "jsval \<Rightarrow> pstate \<Rightarrow> node presult"

definition heap_lookup :: "pstate \<Rightarrow> addr \<Rightarrow> jsobject option" where
  "heap_lookup st a = (if a < length (heap st) then Some (heap st ! a) else None)"

definition heap_alloc :: "jsobject \<Rightarrow> pstate \<Rightarrow> addr \<times> pstate" where
  "heap_alloc obj st = (length (heap st), st\<lparr>heap := heap st @ [obj]\<rparr>)"

text \<open>\<open>Symbol.iterator in current\<close>.\<close>

fun has_iterator :: "jsobject \<Rightarrow> bool" where
  "has_iterator (ArrayObj _ _) = True"
| "has_iterator (PlainObj _ _ it _) = (it \<noteq> None)"
| "has_iterator (BoxedObj v) = (case v of JString _ \<Rightarrow> True | _ \<Rightarrow> False)"
| "has_iterator (DateObj _) = False"
| "has_iterator (RegExpObj _ _) = False"
| "has_iterator (ErrorObj _ _ _) = False"
| "has_iterator (MapObj _ _) = True"
| "has_iterator (SetObj _ _) = True"
| "has_iterator (PromiseObj _ _) = False"
| "has_iterator (OtherObj _ it _) = (it \<noteq> None)"

text \<open>\<open>Object.keys(properties)\<close> with the value of each key. The maps and sets of the
  model have no properties of their own.\<close>

fun own_properties :: "jsobject \<Rightarrow> (string \<times> jsval) list" where
  "own_properties (PlainObj _ props _ _) = props"
| "own_properties (OtherObj props _ _) = props"
| "own_properties _ = []"

text \<open>\<open>getObjectFlag\<close> of \<open>shared.ts\<close>: the integrity state of the object.\<close>

fun getObjectFlag :: "jsobject \<Rightarrow> object_flag" where
  "getObjectFlag (ArrayObj _ flag) = flag"
| "getObjectFlag (PlainObj _ _ _ flag) = flag"
| "getObjectFlag (MapObj _ flag) = flag"
| "getObjectFlag (SetObj _ flag) = flag"
| "getObjectFlag (OtherObj _ _ flag) = flag"
| "getObjectFlag _ = FlagNone"

text \<open>
  \<open>Array.from(properties)\<close>: the items the iterator of the object yields. The iterator
  of a map yields a fresh two-element array for each entry.
\<close>

fun alloc_entries :: "(jsval \<times> jsval) list \<Rightarrow> pstate \<Rightarrow> jsval list \<times> pstate" where
  "alloc_entries [] st = ([], st)"
| "alloc_entries ((k, v) # es) st =
     (let (a, st1) = heap_alloc (ArrayObj [Some k, Some v] FlagNone) st;
          (rest, st2) = alloc_entries es st1
      in (JObject a # rest, st2))"

fun array_from :: "jsobject \<Rightarrow> pstate \<Rightarrow> jsval list \<times> pstate" where
  "array_from (PlainObj _ _ (Some items) _) st = (items, st)"
| "array_from (OtherObj _ (Some items) _) st = (items, st)"
| "array_from (SetObj items _) st = (items, st)"
| "array_from (MapObj es _) st = alloc_entries es st"
| "array_from (ArrayObj elems _) st =
     (map (\<lambda>x. case x of None \<Rightarrow> JUndefined | Some v \<Rightarrow> v) elems, st)"
| "array_from _ st = ([], st)"

section \<open>The parsers\<close>

text \<open>
  Modelled from the spec: \<open>createIndexedValue\<close> of the tree parsers and
  \<open>createCrossIndexedValue\<close> of the cross parser are not part of the sources. By 4.4 the
  id-assignment function returns the existing id if the value was seen, otherwise
  allocates a new id, the next in first-seen order; the tree parsers mark an id when
  its value is seen again, which is what the test \<open>marked.has(id)\<close> of \<open>parseObject\<close>
  reads. The cross version is what \<open>parseObject\<close> of \<open>cross/async.ts\<close> does in line.
\<close>

definition createIndexedValue :: "addr \<Rightarrow> pstate \<Rightarrow> nat \<times> pstate" where
  "createIndexedValue a st =
     (case map_of (refs st) a of
        None \<Rightarrow> (length (refs st), st\<lparr>refs := refs st @ [(a, length (refs st))]\<rparr>)
      | Some i \<Rightarrow> (i, st\<lparr>pmarked := insert i (pmarked st)\<rparr>))"

definition createCrossIndexedValue :: "addr \<Rightarrow> pstate \<Rightarrow> nat \<times> pstate" where
  "createCrossIndexedValue a st =
     (case map_of (refs st) a of
        None \<Rightarrow> (length (refs st), st\<lparr>refs := refs st @ [(a, length (refs st))]\<rparr>)
      | Some i \<Rightarrow> (i, st))"

text \<open>
  \<open>createNumberNode\<close>. The constant nodes \<open>INFINITY_NODE\<close>, \<open>NEG_INFINITY_NODE\<close>,
  \<open>NAN_NODE\<close> and \<open>NEG_ZERO_NODE\<close> are the \<open>Constant\<close> nodes of the four constants.
\<close>

fun createNumberNode :: "jsnumber \<Rightarrow> node" where
  "createNumberNode PositiveInfinity = ConstantNode ConstInfinity"
| "createNumberNode NegativeInfinity = ConstantNode ConstNegativeInfinity"
| "createNumberNode NaN = ConstantNode ConstNaN"
| "createNumberNode NegativeZero = ConstantNode ConstNegativeZero"
| "createNumberNode (Finite z) = NumberNode z"

definition createStringNode :: "penv \<Rightarrow> string \<Rightarrow> node" where
  "createStringNode e v = StringNode (serializeString e v)"

text \<open>
  \<open>createBigIntNode\<close> of the old \<open>primitives.ts\<close> asserts the feature itself, with a
  plain message; the asynchronous parsers test the feature before they call it.
\<close>

definition createBigIntNode :: "penv \<Rightarrow> int \<Rightarrow> js_error + node" where
  "createBigIntNode e z =
     (if Feature_BigInt \<in> pfeatures e then Inr (BigIntNode (show_int z))
      else Inl (ErrorMessage ''Unsupported type \"BigInt\"''))"

definition createReferenceNode :: "penv \<Rightarrow> nat \<Rightarrow> string \<Rightarrow> node" where
  "createReferenceNode e i tag = ReferenceNode i (serializeString e tag)"

text \<open>
  \<open>generateNodeList\<close> (\<open>parseItems\<close> in the tree parser): the first loop parses the
  items that are not iterable and puts the iterable ones into \<open>deferred\<close> (here
  \<open>pending\<close>) at their index; the second loop parses those. Both arrays are created with the length of the
  input, and an index that is never assigned stays a hole.
\<close>

fun nodeList_first ::
  "penv \<Rightarrow> parser \<Rightarrow> jsval option list \<Rightarrow> pstate
     \<Rightarrow> (node option list \<times> jsval option list) presult" where
  "nodeList_first e rec [] st = Inr (([], []), st)"
| "nodeList_first e rec (None # xs) st =
     (case nodeList_first e rec xs st of
        Inl err \<Rightarrow> Inl err
      | Inr ((nodes, pending), st1) \<Rightarrow> Inr ((None # nodes, None # pending), st1))"
| "nodeList_first e rec (Some item # xs) st =
     (if isIterable e item then
        (case nodeList_first e rec xs st of
           Inl err \<Rightarrow> Inl err
         | Inr ((nodes, pending), st1) \<Rightarrow> Inr ((None # nodes, Some item # pending), st1))
      else
        (case rec item st of
           Inl err \<Rightarrow> Inl err
         | Inr (n, st1) \<Rightarrow>
             (case nodeList_first e rec xs st1 of
                Inl err \<Rightarrow> Inl err
              | Inr ((nodes, pending), st2) \<Rightarrow> Inr ((Some n # nodes, None # pending), st2))))"

fun nodeList_second ::
  "parser \<Rightarrow> node option list \<Rightarrow> jsval option list \<Rightarrow> pstate \<Rightarrow> (node option list) presult" where
  "nodeList_second rec (n # nodes) (None # pending) st =
     (case nodeList_second rec nodes pending st of
        Inl err \<Rightarrow> Inl err
      | Inr (nodes', st1) \<Rightarrow> Inr (n # nodes', st1))"
| "nodeList_second rec (n # nodes) (Some item # pending) st =
     (case rec item st of
        Inl err \<Rightarrow> Inl err
      | Inr (m, st1) \<Rightarrow>
          (case nodeList_second rec nodes pending st1 of
             Inl err \<Rightarrow> Inl err
           | Inr (nodes', st2) \<Rightarrow> Inr (Some m # nodes', st2)))"
| "nodeList_second rec nodes pending st = Inr (nodes, st)"

definition generateNodeList ::
  "penv \<Rightarrow> parser \<Rightarrow> jsval option list \<Rightarrow> pstate \<Rightarrow> (node option list) presult" where
  "generateNodeList e rec current st =
     (case nodeList_first e rec current st of
        Inl err \<Rightarrow> Inl err
      | Inr ((nodes, pending), st1) \<Rightarrow> nodeList_second rec nodes pending st1)"

definition generateArrayNode ::
  "penv \<Rightarrow> parser \<Rightarrow> nat \<Rightarrow> jsval option list \<Rightarrow> object_flag \<Rightarrow> pstate \<Rightarrow> node presult" where
  "generateArrayNode e rec i current flag st =
     (case generateNodeList e rec current st of
        Inl err \<Rightarrow> Inl err
      | Inr (a, st1) \<Rightarrow> Inr (ArrayNode i (length current) a flag, st1))"

text \<open>
  \<open>generateMapNode\<close> without its feature test (\<open>parseMap\<close> in the tree parser): the
  entries with an iterable key or value are parsed after the others; \<open>nodeSize\<close> and
  \<open>deferredSize\<close> are the lengths of the two lists.
\<close>

fun mapEntries_first ::
  "penv \<Rightarrow> parser \<Rightarrow> (jsval \<times> jsval) list \<Rightarrow> pstate
     \<Rightarrow> ((node \<times> node) list \<times> (jsval \<times> jsval) list) presult" where
  "mapEntries_first e rec [] st = Inr (([], []), st)"
| "mapEntries_first e rec ((key, val) # es) st =
     (if isIterable e key \<or> isIterable e val then
        (case mapEntries_first e rec es st of
           Inl err \<Rightarrow> Inl err
         | Inr ((nodes, pending), st1) \<Rightarrow> Inr ((nodes, (key, val) # pending), st1))
      else
        (case rec key st of
           Inl err \<Rightarrow> Inl err
         | Inr (k, st1) \<Rightarrow>
             (case rec val st1 of
                Inl err \<Rightarrow> Inl err
              | Inr (v, st2) \<Rightarrow>
                  (case mapEntries_first e rec es st2 of
                     Inl err \<Rightarrow> Inl err
                   | Inr ((nodes, pending), st3) \<Rightarrow> Inr (((k, v) # nodes, pending), st3)))))"

fun mapEntries_second ::
  "parser \<Rightarrow> (jsval \<times> jsval) list \<Rightarrow> pstate \<Rightarrow> ((node \<times> node) list) presult" where
  "mapEntries_second rec [] st = Inr ([], st)"
| "mapEntries_second rec ((key, val) # es) st =
     (case rec key st of
        Inl err \<Rightarrow> Inl err
      | Inr (k, st1) \<Rightarrow>
          (case rec val st1 of
             Inl err \<Rightarrow> Inl err
           | Inr (v, st2) \<Rightarrow>
               (case mapEntries_second rec es st2 of
                  Inl err \<Rightarrow> Inl err
                | Inr (nodes, st3) \<Rightarrow> Inr ((k, v) # nodes, st3))))"

definition generateMapNode ::
  "penv \<Rightarrow> parser \<Rightarrow> nat \<Rightarrow> (jsval \<times> jsval) list \<Rightarrow> pstate \<Rightarrow> node presult" where
  "generateMapNode e rec i entries st =
     (case mapEntries_first e rec entries st of
        Inl err \<Rightarrow> Inl err
      | Inr ((nodes, pending), st1) \<Rightarrow>
          (case mapEntries_second rec pending st1 of
             Inl err \<Rightarrow> Inl err
           | Inr (nodes', st2) \<Rightarrow> Inr (MapNode i (nodes @ nodes') (length entries), st2)))"

text \<open>\<open>generateSetNode\<close> without its feature test (\<open>parseSet\<close> in the tree parser).\<close>

fun setItems_first ::
  "penv \<Rightarrow> parser \<Rightarrow> jsval list \<Rightarrow> pstate \<Rightarrow> (node list \<times> jsval list) presult" where
  "setItems_first e rec [] st = Inr (([], []), st)"
| "setItems_first e rec (item # xs) st =
     (if isIterable e item then
        (case setItems_first e rec xs st of
           Inl err \<Rightarrow> Inl err
         | Inr ((nodes, pending), st1) \<Rightarrow> Inr ((nodes, item # pending), st1))
      else
        (case rec item st of
           Inl err \<Rightarrow> Inl err
         | Inr (n, st1) \<Rightarrow>
             (case setItems_first e rec xs st1 of
                Inl err \<Rightarrow> Inl err
              | Inr ((nodes, pending), st2) \<Rightarrow> Inr ((n # nodes, pending), st2))))"

fun setItems_second :: "parser \<Rightarrow> jsval list \<Rightarrow> pstate \<Rightarrow> (node list) presult" where
  "setItems_second rec [] st = Inr ([], st)"
| "setItems_second rec (item # xs) st =
     (case rec item st of
        Inl err \<Rightarrow> Inl err
      | Inr (n, st1) \<Rightarrow>
          (case setItems_second rec xs st1 of
             Inl err \<Rightarrow> Inl err
           | Inr (nodes, st2) \<Rightarrow> Inr (n # nodes, st2)))"

definition generateSetNode ::
  "penv \<Rightarrow> parser \<Rightarrow> nat \<Rightarrow> jsval list \<Rightarrow> pstate \<Rightarrow> node presult" where
  "generateSetNode e rec i items st =
     (case setItems_first e rec items st of
        Inl err \<Rightarrow> Inl err
      | Inr ((nodes, pending), st1) \<Rightarrow>
          (case setItems_second rec pending st1 of
             Inl err \<Rightarrow> Inl err
           | Inr (nodes', st2) \<Rightarrow> Inr (SetNode i (length items) (nodes @ nodes'), st2)))"

text \<open>
  \<open>generateProperties\<close> (\<open>parseProperties\<close> in the tree parser). After the two passes
  over the keys, an object with an iterator gets, when \<open>Feature.Symbol\<close> is enabled, one
  more entry under the sentinel key: the array node of \<open>Array.from(properties)\<close>, a fresh
  array with an id of its own, which \<open>createId\<close> allocates (\<open>createIndexedValue\<close> or
  \<open>createCrossIndexedValue\<close>).
\<close>

fun properties_first ::
  "penv \<Rightarrow> parser \<Rightarrow> (string \<times> jsval) list \<Rightarrow> pstate
     \<Rightarrow> ((record_key \<times> node) list \<times> (string \<times> jsval) list) presult" where
  "properties_first e rec [] st = Inr (([], []), st)"
| "properties_first e rec ((key, item) # xs) st =
     (let escaped = serializeString e key in
      if isIterable e item then
        (case properties_first e rec xs st of
           Inl err \<Rightarrow> Inl err
         | Inr ((nodes, pending), st1) \<Rightarrow> Inr ((nodes, (escaped, item) # pending), st1))
      else
        (case rec item st of
           Inl err \<Rightarrow> Inl err
         | Inr (n, st1) \<Rightarrow>
             (case properties_first e rec xs st1 of
                Inl err \<Rightarrow> Inl err
              | Inr ((nodes, pending), st2) \<Rightarrow> Inr (((Key escaped, n) # nodes, pending), st2))))"

fun properties_second ::
  "parser \<Rightarrow> (string \<times> jsval) list \<Rightarrow> pstate \<Rightarrow> ((record_key \<times> node) list) presult" where
  "properties_second rec [] st = Inr ([], st)"
| "properties_second rec ((escaped, item) # xs) st =
     (case rec item st of
        Inl err \<Rightarrow> Inl err
      | Inr (n, st1) \<Rightarrow>
          (case properties_second rec xs st1 of
             Inl err \<Rightarrow> Inl err
           | Inr (nodes, st2) \<Rightarrow> Inr ((Key escaped, n) # nodes, st2)))"

definition generateProperties ::
  "penv \<Rightarrow> parser \<Rightarrow> (addr \<Rightarrow> pstate \<Rightarrow> nat \<times> pstate) \<Rightarrow> jsobject \<Rightarrow> pstate
     \<Rightarrow> ((record_key \<times> node) list \<times> nat) presult" where
  "generateProperties e rec createId properties st =
     (let keys = own_properties properties in
      case properties_first e rec keys st of
        Inl err \<Rightarrow> Inl err
      | Inr ((nodes, pending), st1) \<Rightarrow>
          (case properties_second rec pending st1 of
             Inl err \<Rightarrow> Inl err
           | Inr (nodes', st2) \<Rightarrow>
               if Feature_Symbol \<in> pfeatures e \<and> has_iterator properties then
                 (let (items, st3) = array_from properties st2;
                      (a, st4) = heap_alloc (ArrayObj (map Some items) FlagNone) st3;
                      (i, st5) = createId a st4
                  in case generateArrayNode e rec i (map Some items) FlagNone st5 of
                       Inl err \<Rightarrow> Inl err
                     | Inr (n, st6) \<Rightarrow>
                         Inr ((nodes @ nodes' @ [(SymbolIterator, n)], length keys + 1), st6))
               else Inr ((nodes @ nodes', length keys), st2)))"

definition generateObjectNode ::
  "penv \<Rightarrow> parser \<Rightarrow> (addr \<Rightarrow> pstate \<Rightarrow> nat \<times> pstate) \<Rightarrow> nat \<Rightarrow> jsobject \<Rightarrow> bool
     \<Rightarrow> object_flag \<Rightarrow> pstate \<Rightarrow> node presult" where
  "generateObjectNode e rec createId i current emptyProto flag st =
     (case generateProperties e rec createId current st of
        Inl err \<Rightarrow> Inl err
      | Inr ((kvs, len), st1) \<Rightarrow>
          Inr (if emptyProto then NullConstructorNode i kvs len flag
               else ObjectNode i kvs len flag, st1))"

text \<open>\<open>generateErrorNode\<close> (\<open>parseError\<close>): the options, if any, are a plain object.\<close>

definition generateErrorNode ::
  "penv \<Rightarrow> parser \<Rightarrow> (addr \<Rightarrow> pstate \<Rightarrow> nat \<times> pstate) \<Rightarrow> nat \<Rightarrow> error_constructor
     \<Rightarrow> string \<Rightarrow> (string \<times> jsval) list option \<Rightarrow> pstate \<Rightarrow> node presult" where
  "generateErrorNode e rec createId i ec message options st =
     (case options of
        None \<Rightarrow> Inr (ErrorNode i ec (serializeString e message) None, st)
      | Some props \<Rightarrow>
          (case generateProperties e rec createId (PlainObj False props None FlagNone) st of
             Inl err \<Rightarrow> Inl err
           | Inr (p, st1) \<Rightarrow> Inr (ErrorNode i ec (serializeString e message) (Some p), st1)))"

definition generateBoxedNode :: "parser \<Rightarrow> nat \<Rightarrow> jsval \<Rightarrow> pstate \<Rightarrow> node presult" where
  "generateBoxedNode rec i v st =
     (case rec v st of Inl err \<Rightarrow> Inl err | Inr (f, st1) \<Rightarrow> Inr (BoxedNode i f, st1))"

definition generatePromiseNode ::
  "parser \<Rightarrow> nat \<Rightarrow> bool \<Rightarrow> jsval \<Rightarrow> pstate \<Rightarrow> node presult" where
  "generatePromiseNode rec i status v st =
     (case rec v st of Inl err \<Rightarrow> Inl err | Inr (f, st1) \<Rightarrow> Inr (PromiseNode i status f, st1))"

text \<open>
  The part of \<open>parseObject\<close> that follows the reference test, by the class of the
  object. The synchronous parser (an earlier revision, whose nodes have no flag field:
  the flag of its nodes is \<open>FlagNone\<close>) sends a map and a set to their generators
  whatever the features, and the generators assert the feature; its last test,
  \<open>Symbol.iterator in current\<close>, reads no feature.
\<close>

fun dispatch_sync ::
  "penv \<Rightarrow> parser \<Rightarrow> (addr \<Rightarrow> pstate \<Rightarrow> nat \<times> pstate) \<Rightarrow> nat \<Rightarrow> jsobject \<Rightarrow> pstate
     \<Rightarrow> node presult" where
  "dispatch_sync e rec createId i (ArrayObj elems flag) st =
     generateArrayNode e rec i elems FlagNone st"
| "dispatch_sync e rec createId i (BoxedObj v) st = generateBoxedNode rec i v st"
| "dispatch_sync e rec createId i (DateObj d) st = Inr (DateNode i d, st)"
| "dispatch_sync e rec createId i (RegExpObj src fl) st = Inr (RegExpNode i src fl, st)"
| "dispatch_sync e rec createId i (MapObj entries flag) st =
     (if Feature_Map \<in> pfeatures e then generateMapNode e rec i entries st
      else Inl UnsupportedTypeError)"
| "dispatch_sync e rec createId i (SetObj items flag) st =
     (if Feature_Set \<in> pfeatures e then generateSetNode e rec i items st
      else Inl UnsupportedTypeError)"
| "dispatch_sync e rec createId i (PlainObj nullProto props it flag) st =
     generateObjectNode e rec createId i (PlainObj nullProto props it flag) nullProto FlagNone st"
| "dispatch_sync e rec createId i (ErrorObj ec message options) st =
     generateErrorNode e rec createId i ec message options st"
| "dispatch_sync e rec createId i (PromiseObj status v) st = Inl UnsupportedTypeError"
| "dispatch_sync e rec createId i (OtherObj props it flag) st =
     (if has_iterator (OtherObj props it flag)
      then generateObjectNode e rec createId i (OtherObj props it flag) True FlagNone st
      else Inl UnsupportedTypeError)"

text \<open>
  The asynchronous parsers test the feature before they go to the generator of a map, a
  set or a promise; an object that no test has taken reaches the last one, which
  parses any object with an iterator as a plain object when \<open>Feature.Symbol\<close> is
  enabled (\<open>!!currentClass\<close> is true for an object that has a constructor).
\<close>

definition iterable_fallback ::
  "penv \<Rightarrow> parser \<Rightarrow> (addr \<Rightarrow> pstate \<Rightarrow> nat \<times> pstate) \<Rightarrow> nat \<Rightarrow> jsobject \<Rightarrow> pstate
     \<Rightarrow> node presult" where
  "iterable_fallback e rec createId i current st =
     (if Feature_Symbol \<in> pfeatures e \<and> has_iterator current
      then generateObjectNode e rec createId i current True (getObjectFlag current) st
      else Inl UnsupportedTypeError)"

fun dispatch_async ::
  "penv \<Rightarrow> parser \<Rightarrow> (addr \<Rightarrow> pstate \<Rightarrow> nat \<times> pstate) \<Rightarrow> nat \<Rightarrow> jsobject \<Rightarrow> pstate
     \<Rightarrow> node presult" where
  "dispatch_async e rec createId i (ArrayObj elems flag) st =
     generateArrayNode e rec i elems flag st"
| "dispatch_async e rec createId i (PlainObj nullProto props it flag) st =
     generateObjectNode e rec createId i (PlainObj nullProto props it flag) nullProto flag st"
| "dispatch_async e rec createId i (DateObj d) st = Inr (DateNode i d, st)"
| "dispatch_async e rec createId i (RegExpObj src fl) st = Inr (RegExpNode i src fl, st)"
| "dispatch_async e rec createId i (ErrorObj ec message options) st =
     generateErrorNode e rec createId i ec message options st"
| "dispatch_async e rec createId i (BoxedObj v) st = generateBoxedNode rec i v st"
| "dispatch_async e rec createId i (MapObj entries flag) st =
     (if Feature_Map \<in> pfeatures e then generateMapNode e rec i entries st
      else iterable_fallback e rec createId i (MapObj entries flag) st)"
| "dispatch_async e rec createId i (SetObj items flag) st =
     (if Feature_Set \<in> pfeatures e then generateSetNode e rec i items st
      else iterable_fallback e rec createId i (SetObj items flag) st)"
| "dispatch_async e rec createId i (PromiseObj status v) st =
     (if Feature_Promise \<in> pfeatures e then generatePromiseNode rec i status v st
      else iterable_fallback e rec createId i (PromiseObj status v) st)"
| "dispatch_async e rec createId i (OtherObj props it flag) st =
     iterable_fallback e rec createId i (OtherObj props it flag) st"

text \<open>
  \<open>parseObject\<close> of the three parsers; \<open>None\<close> is \<open>null\<close>. The tree parsers ask
  \<open>createIndexedValue\<close> for the id and return an IndexedValue when the id is marked; the
  cross parser looks the object up in \<open>ctx.refs\<close> and registers it under
  \<open>ctx.refs.size\<close> when it is not there. An address outside the heap is not a value of
  the host; the model answers \<open>NoSuchObject\<close>.
\<close>

definition parseObject_sync :: "penv \<Rightarrow> parser \<Rightarrow> addr option \<Rightarrow> pstate \<Rightarrow> node presult" where
  "parseObject_sync e rec current st =
     (case current of
        None \<Rightarrow> Inr (ConstantNode ConstNull, st)
      | Some a \<Rightarrow>
          (let (i, st1) = createIndexedValue a st in
           if i \<in> pmarked st1 then Inr (IndexedValueNode i, st1)
           else case referenceID e a of
             Some tag \<Rightarrow> Inr (createReferenceNode e i tag, st1)
           | None \<Rightarrow>
               (case heap_lookup st1 a of
                  None \<Rightarrow> Inl NoSuchObject
                | Some obj \<Rightarrow> dispatch_sync e rec createIndexedValue i obj st1)))"

definition parseObject_tree :: "penv \<Rightarrow> parser \<Rightarrow> addr option \<Rightarrow> pstate \<Rightarrow> node presult" where
  "parseObject_tree e rec current st =
     (case current of
        None \<Rightarrow> Inr (ConstantNode ConstNull, st)
      | Some a \<Rightarrow>
          (let (i, st1) = createIndexedValue a st in
           if i \<in> pmarked st1 then Inr (IndexedValueNode i, st1)
           else case referenceID e a of
             Some tag \<Rightarrow> Inr (createReferenceNode e i tag, st1)
           | None \<Rightarrow>
               (case heap_lookup st1 a of
                  None \<Rightarrow> Inl NoSuchObject
                | Some obj \<Rightarrow> dispatch_async e rec createIndexedValue i obj st1)))"

definition parseObject_cross :: "penv \<Rightarrow> parser \<Rightarrow> addr option \<Rightarrow> pstate \<Rightarrow> node presult" where
  "parseObject_cross e rec current st =
     (case current of
        None \<Rightarrow> Inr (ConstantNode ConstNull, st)
      | Some a \<Rightarrow>
          (case map_of (refs st) a of
             Some registeredID \<Rightarrow> Inr (IndexedValueNode registeredID, st)
           | None \<Rightarrow>
               (let i = length (refs st);
                    st1 = st\<lparr>refs := refs st @ [(a, i)]\<rparr>
                in case referenceID e a of
                     Some tag \<Rightarrow> Inr (createReferenceNode e i tag, st1)
                   | None \<Rightarrow>
                       (case heap_lookup st1 a of
                          None \<Rightarrow> Inl NoSuchObject
                        | Some obj \<Rightarrow> dispatch_async e rec createCrossIndexedValue i obj st1))))"

text \<open>
  The dispatch on \<open>typeof current\<close>. The model has no values of type symbol or function.
\<close>

definition parse_step_sync ::
  "penv \<Rightarrow> parser \<Rightarrow> jsval \<Rightarrow> pstate \<Rightarrow> node presult" where
  "parse_step_sync e rec current st =
     (case current of
        JBoolean b \<Rightarrow> Inr (ConstantNode (if b then ConstTrue else ConstFalse), st)
      | JUndefined \<Rightarrow> Inr (ConstantNode ConstUndefined, st)
      | JString v \<Rightarrow> Inr (createStringNode e v, st)
      | JNumber x \<Rightarrow> Inr (createNumberNode x, st)
      | JBigInt z \<Rightarrow> (case createBigIntNode e z of Inl err \<Rightarrow> Inl err | Inr n \<Rightarrow> Inr (n, st))
      | JNull \<Rightarrow> parseObject_sync e rec None st
      | JObject a \<Rightarrow> parseObject_sync e rec (Some a) st)"

definition parse_step_async ::
  "(penv \<Rightarrow> parser \<Rightarrow> addr option \<Rightarrow> pstate \<Rightarrow> node presult)
     \<Rightarrow> penv \<Rightarrow> parser \<Rightarrow> jsval \<Rightarrow> pstate \<Rightarrow> node presult" where
  "parse_step_async parseObj e rec current st =
     (case current of
        JBigInt z \<Rightarrow>
          (if Feature_BigInt \<in> pfeatures e
           then (case createBigIntNode e z of Inl err \<Rightarrow> Inl err | Inr n \<Rightarrow> Inr (n, st))
           else Inl UnsupportedTypeError)
      | JBoolean b \<Rightarrow> Inr (ConstantNode (if b then ConstTrue else ConstFalse), st)
      | JUndefined \<Rightarrow> Inr (ConstantNode ConstUndefined, st)
      | JString v \<Rightarrow> Inr (createStringNode e v, st)
      | JNumber x \<Rightarrow> Inr (createNumberNode x, st)
      | JNull \<Rightarrow> parseObj e rec None st
      | JObject a \<Rightarrow> parseObj e rec (Some a) st)"

text \<open>
  The parsers. The recursion follows the object graph of the input, which the heap can
  make as deep as it likes, so the functions take fuel: one unit for each nested call.
  A parse that runs out of fuel answers \<open>OutOfFuel\<close>.
\<close>

fun parseSync :: "nat \<Rightarrow> penv \<Rightarrow> jsval \<Rightarrow> pstate \<Rightarrow> node presult" where
  "parseSync 0 e current st = Inl OutOfFuel"
| "parseSync (Suc fuel) e current st = parse_step_sync e (parseSync fuel e) current st"

fun parseAsync :: "nat \<Rightarrow> penv \<Rightarrow> jsval \<Rightarrow> pstate \<Rightarrow> node presult" where
  "parseAsync 0 e current st = Inl OutOfFuel"
| "parseAsync (Suc fuel) e current st =
     parse_step_async parseObject_tree e (parseAsync fuel e) current st"

fun crossParseAsync :: "nat \<Rightarrow> penv \<Rightarrow> jsval \<Rightarrow> pstate \<Rightarrow> node presult" where
  "crossParseAsync 0 e current st = Inl OutOfFuel"
| "crossParseAsync (Suc fuel) e current st =
     parse_step_async parseObject_cross e (crossParseAsync fuel e) current st"

section \<open>Arrays through parse and serialize\<close>

lemma nodeList_first_holes:
  "nodeList_first e rec xs st = Inr ((nodes, pending), st')
   \<Longrightarrow> length nodes = length xs \<and> length pending = length xs
       \<and> map (\<lambda>np. fst np = None \<and> snd np = None) (zip nodes pending) = map (\<lambda>x. x = None) xs"
proof (induction e rec xs st arbitrary: nodes pending st' rule: nodeList_first.induct)
  case (1 e rec st)
  then show ?case by simp
next
  case (2 e rec xs st)
  then show ?case by (auto split: sum.splits prod.splits)
next
  case (3 e rec item xs st)
  show ?case
  proof (cases "isIterable e item")
    case True
    with "3.prems" "3.IH"(1) show ?thesis by (auto split: sum.splits prod.splits)
  next
    case False
    with "3.prems" "3.IH"(2) show ?thesis by (auto split: sum.splits prod.splits)
  qed
qed




text \<open>
  Where the input has a value, the node list has a node the parser returned for that
  value, whichever of the two loops parsed it.
\<close>

definition parsed_by :: "parser \<Rightarrow> jsval option \<Rightarrow> node option \<Rightarrow> bool" where
  "parsed_by rec x n \<longleftrightarrow>
     (case x of
        None \<Rightarrow> n = None
      | Some v \<Rightarrow> (\<exists>nd st0 st1. n = Some nd \<and> rec v st0 = Inr (nd, st1)))"

definition first_pass :: "parser \<Rightarrow> jsval option \<Rightarrow> node option \<times> jsval option \<Rightarrow> bool" where
  "first_pass rec x np \<longleftrightarrow>
     (case snd np of
        None \<Rightarrow> parsed_by rec x (fst np)
      | Some v \<Rightarrow> fst np = None \<and> x = Some v)"

definition second_pass :: "parser \<Rightarrow> node option \<times> jsval option \<Rightarrow> node option \<Rightarrow> bool" where
  "second_pass rec np n \<longleftrightarrow>
     (case snd np of
        None \<Rightarrow> n = fst np
      | Some v \<Rightarrow> parsed_by rec (Some v) n)"

lemma parsed_byI: "rec v st = Inr (nd, st1) \<Longrightarrow> parsed_by rec (Some v) (Some nd)"
  by (auto simp: parsed_by_def)

lemma nodeList_first_parsed:
  "nodeList_first e rec xs st = Inr ((nodes, later), st')
   \<Longrightarrow> list_all2 (first_pass rec) xs (zip nodes later)"
proof (induction e rec xs st arbitrary: nodes later st' rule: nodeList_first.induct)
  case (1 e rec st)
  then show ?case by simp
next
  case (2 e rec xs st)
  from "2.prems" obtain nodes1 later1 where
    b: "nodeList_first e rec xs st = Inr ((nodes1, later1), st')" and
    c: "nodes = None # nodes1" "later = None # later1"
    by (auto split: sum.splits prod.splits)
  have "first_pass rec None (None, None)" by (simp add: first_pass_def parsed_by_def)
  with "2.IH" [OF b] c show ?case by simp
next
  case (3 e rec item xs st)
  show ?case
  proof (cases "isIterable e item")
    case True
    with "3.prems" obtain nodes1 later1 where
      b: "nodeList_first e rec xs st = Inr ((nodes1, later1), st')" and
      c: "nodes = None # nodes1" "later = Some item # later1"
      by (auto split: sum.splits prod.splits)
    have "first_pass rec (Some item) (None, Some item)" by (simp add: first_pass_def)
    with "3.IH"(1) [OF True b] c show ?thesis by simp
  next
    case False
    with "3.prems" obtain n st1 nodes1 later1 where
      a: "rec item st = Inr (n, st1)" and
      b: "nodeList_first e rec xs st1 = Inr ((nodes1, later1), st')" and
      c: "nodes = Some n # nodes1" "later = None # later1"
      by (auto split: sum.splits prod.splits)
    from a have "parsed_by rec (Some item) (Some n)" by (rule parsed_byI)
    then have "first_pass rec (Some item) (Some n, None)"
      by (simp add: first_pass_def)
    with "3.IH"(2) [OF False a refl b] c show ?thesis by simp
  qed
qed

lemma nodeList_second_parsed:
  "nodeList_second rec nodes later st = Inr (nodes', st') \<Longrightarrow> length nodes = length later
   \<Longrightarrow> list_all2 (second_pass rec) (zip nodes later) nodes'"
proof (induction rec nodes later st arbitrary: nodes' st' rule: nodeList_second.induct)
  case (1 rec n nodes later st)
  from "1.prems"(1) obtain nodes1 where
    b: "nodeList_second rec nodes later st = Inr (nodes1, st')" and
    c: "nodes' = n # nodes1"
    by (auto split: sum.splits prod.splits)
  have "second_pass rec (n, None) n" by (simp add: second_pass_def)
  with "1.IH" [OF b] "1.prems"(2) c show ?case by simp
next
  case (2 rec n nodes item later st)
  from "2.prems"(1) obtain m st1 nodes1 where
    a: "rec item st = Inr (m, st1)" and
    b: "nodeList_second rec nodes later st1 = Inr (nodes1, st')" and
    c: "nodes' = Some m # nodes1"
    by (auto split: sum.splits prod.splits)
  from a have "parsed_by rec (Some item) (Some m)" by (rule parsed_byI)
  then have "second_pass rec (n, Some item) (Some m)"
    by (simp add: second_pass_def)
  with "2.IH" [OF a refl b] "2.prems"(2) c show ?case by simp
qed simp_all

lemma generateNodeList_parsed:
  assumes "generateNodeList e rec current st = Inr (a, st')"
  shows "list_all2 (parsed_by rec) current a"
proof -
  from assms obtain nodes later st1 where
    f: "nodeList_first e rec current st = Inr ((nodes, later), st1)" and
    s: "nodeList_second rec nodes later st1 = Inr (a, st')"
    by (auto simp: generateNodeList_def split: sum.splits prod.splits)
  from nodeList_first_holes [OF f] have l: "length nodes = length later" by simp
  have "parsed_by rec x n" if "first_pass rec x np" and "second_pass rec np n" for x np n
    using that by (auto simp: first_pass_def second_pass_def split: option.splits)
  from this nodeList_first_parsed [OF f] nodeList_second_parsed [OF s l] show ?thesis
    by (rule list_all2_trans)
qed

lemma generateArrayNode_parsed:
  assumes "generateArrayNode e rec i current flag st = Inr (n, st')"
  shows "\<exists>a. n = ArrayNode i (length current) a flag \<and> length a = length current
           \<and> (\<forall>k<length current. parsed_by rec (current ! k) (a ! k))"
proof -
  from assms obtain a where
    g: "generateNodeList e rec current st = Inr (a, st')" and
    n: "n = ArrayNode i (length current) a flag"
    by (auto simp: generateArrayNode_def split: sum.splits prod.splits)
  from generateNodeList_parsed [OF g] n show ?thesis
    by (auto simp: list_all2_conv_all_nth)
qed

section \<open>An environment and heaps to run the parsers on\<close>

text \<open>
  An environment with no registered references, in which the objects at the addresses
  \<open>iterables\<close> are the ones \<open>isIterable\<close> accepts, and strings need no escaping.
\<close>

definition example_penv :: "feature set \<Rightarrow> addr set \<Rightarrow> penv" where
  "example_penv fs iterables =
     \<lparr>pfeatures = fs,
      referenceID = (\<lambda>_. None),
      isIterable = (\<lambda>v. case v of JObject a \<Rightarrow> a \<in> iterables | _ \<Rightarrow> False),
      serializeString = (\<lambda>s. s)\<rparr>"

text \<open>The state of a fresh parser context over a heap.\<close>

definition initial_pstate :: "jsobject list \<Rightarrow> pstate" where
  "initial_pstate h = \<lparr>heap = h, refs = [], pmarked = {}\<rparr>"

text \<open>The array \<^verbatim>\<open>[1, , "a", , ]\<close>, of length 4 with holes at 1 and 3.\<close>

definition holey_array :: "jsval option list" where
  "holey_array = [Some (JNumber (Finite 1)), None, Some (JString ''a''), None]"

text \<open>The array \<open>a\<close> with \<open>a[0] === a\<close>, at address 0, and a parser state that has met it.\<close>

definition self_array_pstate :: pstate where
  "self_array_pstate = \<lparr>heap = [ArrayObj [Some (JObject 0)] FlagNone], refs = [(0, 0)], pmarked = {}\<rparr>"

text \<open>
  Claim C5. An array of the input is parsed to an Array node of the same length, and
  \<open>serialize\<close> emits for that node an array literal with as many slots as the input has
  indices. The slot of every hole of the input is empty. The slot of every element of
  the input holds the text \<open>serialize\<close> returns for the node the parser made of that
  element, and that text is not empty (given that no name of an id, no text of a number
  and no entry of \<open>SYMBOL_STRING\<close> is empty and no empty text waits in the deferred map).
  The one exception is an element that the parser made a reference back to an id on the
  stack, the array itself or a container around it: its slot is left empty, and the
  assignment that fills index \<open>k\<close> of the array with the referenced value is added to the
  assignments. A comma follows the last slot exactly when that slot is empty, so that
  the host counts as many elements as the input has; and the array of length 0 is
  emitted as \<open>[]\<close>.
\<close>

theorem array_length_and_holes_preserved:
  assumes "generateArrayNode e rec i current flag st = Inr (n, st')"
      and "serialize c n s = Inr (r, s')"
  shows "\<exists>slots. r = assignIndexedValue c i
                         (array_literal slots (slots \<noteq> [] \<and> last slots = '''')) s'
           \<and> length slots = length current
           \<and> (\<forall>k<length current. current ! k = None \<longrightarrow> slots ! k = '''')
           \<and> (\<forall>k<length current. \<forall>v. current ! k = Some v \<longrightarrow>
                 (\<exists>nd st0 st1. rec v st0 = Inr (nd, st1)
                    \<and> (if is_IndexedValue nd \<and> node_i nd \<in> set (stack s @ [i])
                        then slots ! k = ''''
                             \<and> Assignment AssignIndex (refName c i @ ''['' @ show_nat k @ '']'')
                                  None (refName c (node_i nd)) \<in> set (assignments s')
                        else (\<exists>s0 s1. stack s0 = stack s @ [i]
                                \<and> serialize c nd s0 = Inr (slots ! k, s1))
                             \<and> (texts_ok c s \<longrightarrow> slots ! k \<noteq> ''''))))
           \<and> literal_length slots (slots \<noteq> [] \<and> last slots = '''') = length current
           \<and> (current = [] \<longrightarrow> r = assignIndexedValue c i ''[]'' s')"
proof -
  from generateArrayNode_parsed [OF assms(1)] obtain a where
    n: "n = ArrayNode i (length current) a flag" and
    l: "length a = length current" and
    h: "\<forall>k<length current. parsed_by rec (current ! k) (a ! k)"
    by blast
  have ka: "keeps_all c (serialize c)"
    by (rule keeps_allI) (rule serialize_invariants)
  from assms(2) n have
    "serializeArray c (serialize c) i (length current) a flag s = Inr (r, s')" by simp
  from serializeArray_slots [OF ka this] show ?thesis
  proof (elim exE conjE)
    fix slots
    assume r: "r = assignIndexedValue c i
                     (array_literal slots (slots \<noteq> [] \<and> last slots = '''')) s'"
      and len: "length slots = length current"
      and sl: "\<forall>k<length current. slot_ok c (serialize c) i (stack_push i s) s' k
                 (if k < length a then a ! k else None) (slots ! k)"
    have ok: "slot_ok c (serialize c) i (stack_push i s) s' k (a ! k) (slots ! k)"
      if "k < length current" for k
      using sl l that by simp
    show ?thesis
    proof (intro exI [of _ slots] conjI allI impI)
      show "r = assignIndexedValue c i
                  (array_literal slots (slots \<noteq> [] \<and> last slots = '''')) s'" by (rule r)
      show "length slots = length current" by (rule len)
      show "literal_length slots (slots \<noteq> [] \<and> last slots = '''') = length current"
        using len by (simp add: literal_length_array)
    next
      fix k assume k: "k < length current" and hole: "current ! k = None"
      from h k have "parsed_by rec (current ! k) (a ! k)" by simp
      with hole have "a ! k = None" by (simp add: parsed_by_def)
      with ok [OF k] show "slots ! k = ''''" by (simp add: slot_ok_def)
    next
      fix k v assume k: "k < length current" and v: "current ! k = Some v"
      from h k have "parsed_by rec (current ! k) (a ! k)" by simp
      with v obtain nd st0 st1 where
        a: "a ! k = Some nd" and p: "rec v st0 = Inr (nd, st1)"
        by (auto simp: parsed_by_def)
      have e1: "isIndexedValueInStack (stack_push i s) nd
                  = (is_IndexedValue nd \<and> node_i nd \<in> set (stack s @ [i]))"
        by (simp add: isIndexedValueInStack_def stack_push_def)
      have e2: "stack (stack_push i s) = stack s @ [i]" by (simp add: stack_push_def)
      have e3: "texts_ok c (stack_push i s) = texts_ok c s" by simp
      from ok [OF k] have
        "if is_IndexedValue nd \<and> node_i nd \<in> set (stack s @ [i])
         then slots ! k = ''''
              \<and> Assignment AssignIndex (refName c i @ ''['' @ show_nat k @ '']'')
                   None (refName c (node_i nd)) \<in> set (assignments s')
         else (\<exists>s0 s1. stack s0 = stack s @ [i]
                 \<and> serialize c nd s0 = Inr (slots ! k, s1))
              \<and> (texts_ok c s \<longrightarrow> slots ! k \<noteq> '''')"
        unfolding slot_ok_def a option.case e1 e2 e3 .
      with p show
        "\<exists>nd st0 st1. rec v st0 = Inr (nd, st1)
           \<and> (if is_IndexedValue nd \<and> node_i nd \<in> set (stack s @ [i])
               then slots ! k = ''''
                    \<and> Assignment AssignIndex (refName c i @ ''['' @ show_nat k @ '']'')
                         None (refName c (node_i nd)) \<in> set (assignments s')
               else (\<exists>s0 s1. stack s0 = stack s @ [i]
                       \<and> serialize c nd s0 = Inr (slots ! k, s1))
                    \<and> (texts_ok c s \<longrightarrow> slots ! k \<noteq> ''''))"
        by blast
    next
      assume "current = []"
      with len r show "r = assignIndexedValue c i ''[]'' s'"
        by (simp add: array_literal_def join_commas_def)
    qed
  qed
qed

theorem array_length_and_holes_preserved_witness:
  "(\<exists>n st' r s'.
      generateArrayNode (example_penv ALL_FEATURES {})
          (parseSync 1 (example_penv ALL_FEATURES {})) 0 holey_array FlagNone
          (initial_pstate [ArrayObj holey_array FlagNone]) = Inr (n, st')
    \<and> n = ArrayNode 0 4 [Some (NumberNode 1), None, Some (StringNode ''a''), None] FlagNone
    \<and> serialize (example_ctx ALL_FEATURES) n (initial_sstate {}) = Inr (r, s')
    \<and> r = ''[1,,\"a\",,]''
    \<and> texts_ok (example_ctx ALL_FEATURES) (initial_sstate {})
    \<and> (\<exists>slots. r = assignIndexedValue (example_ctx ALL_FEATURES) 0
                      (array_literal slots (slots \<noteq> [] \<and> last slots = '''')) s'
          \<and> length slots = length holey_array
          \<and> (\<forall>k<length holey_array. holey_array ! k = None \<longrightarrow> slots ! k = '''')
          \<and> (\<forall>k<length holey_array. \<forall>v. holey_array ! k = Some v \<longrightarrow>
                (\<exists>nd st0 st1. parseSync 1 (example_penv ALL_FEATURES {}) v st0 = Inr (nd, st1)
                   \<and> (if is_IndexedValue nd \<and> node_i nd \<in> set (stack (initial_sstate {}) @ [0])
                       then slots ! k = ''''
                            \<and> Assignment AssignIndex
                                 (refName (example_ctx ALL_FEATURES) 0 @ ''['' @ show_nat k @ '']'')
                                 None (refName (example_ctx ALL_FEATURES) (node_i nd))
                               \<in> set (assignments s')
                       else (\<exists>s0 s1. stack s0 = stack (initial_sstate {}) @ [0]
                               \<and> serialize (example_ctx ALL_FEATURES) nd s0 = Inr (slots ! k, s1))
                            \<and> (texts_ok (example_ctx ALL_FEATURES) (initial_sstate {})
                                 \<longrightarrow> slots ! k \<noteq> ''''))))
          \<and> literal_length slots (slots \<noteq> [] \<and> last slots = '''') = length holey_array
          \<and> (holey_array = [] \<longrightarrow> r = assignIndexedValue (example_ctx ALL_FEATURES) 0 ''[]'' s')))
   \<and> (\<exists>n st' r s'.
      generateArrayNode (example_penv ALL_FEATURES {})
          (parseSync 1 (example_penv ALL_FEATURES {})) 0 [Some (JObject 0)] FlagNone
          self_array_pstate = Inr (n, st')
    \<and> n = ArrayNode 0 1 [Some (IndexedValueNode 0)] FlagNone
    \<and> serialize (example_ctx ALL_FEATURES) n (initial_sstate {0}) = Inr (r, s')
    \<and> r = ''v0=[,]''
    \<and> assignments s' = [Assignment AssignIndex ''v0[0]'' None ''v0'']
    \<and> (\<exists>slots. r = assignIndexedValue (example_ctx ALL_FEATURES) 0
                      (array_literal slots (slots \<noteq> [] \<and> last slots = '''')) s'
          \<and> length slots = length [Some (JObject 0)]
          \<and> (\<forall>k<length [Some (JObject 0)]. [Some (JObject 0)] ! k = None \<longrightarrow> slots ! k = '''')
          \<and> (\<forall>k<length [Some (JObject 0)]. \<forall>v. [Some (JObject 0)] ! k = Some v \<longrightarrow>
                (\<exists>nd st0 st1. parseSync 1 (example_penv ALL_FEATURES {}) v st0 = Inr (nd, st1)
                   \<and> (if is_IndexedValue nd \<and> node_i nd \<in> set (stack (initial_sstate {0}) @ [0])
                       then slots ! k = ''''
                            \<and> Assignment AssignIndex
                                 (refName (example_ctx ALL_FEATURES) 0 @ ''['' @ show_nat k @ '']'')
                                 None (refName (example_ctx ALL_FEATURES) (node_i nd))
                               \<in> set (assignments s')
                       else (\<exists>s0 s1. stack s0 = stack (initial_sstate {0}) @ [0]
                               \<and> serialize (example_ctx ALL_FEATURES) nd s0 = Inr (slots ! k, s1))
                            \<and> (texts_ok (example_ctx ALL_FEATURES) (initial_sstate {0})
                                 \<longrightarrow> slots ! k \<noteq> ''''))))
          \<and> literal_length slots (slots \<noteq> [] \<and> last slots = '''')
              = length [Some (JObject 0)]
          \<and> ([Some (JObject 0)] = []
               \<longrightarrow> r = assignIndexedValue (example_ctx ALL_FEATURES) 0 ''[]'' s')))"
proof (rule conjI)
  have p: "generateArrayNode (example_penv ALL_FEATURES {})
             (parseSync 1 (example_penv ALL_FEATURES {})) 0 holey_array FlagNone
             (initial_pstate [ArrayObj holey_array FlagNone])
           = Inr (ArrayNode 0 4 [Some (NumberNode 1), None, Some (StringNode ''a''), None] FlagNone,
                  initial_pstate [ArrayObj holey_array FlagNone])"
    by code_simp
  have "outcome (serialize (example_ctx ALL_FEATURES)
                   (ArrayNode 0 4 [Some (NumberNode 1), None, Some (StringNode ''a''), None] FlagNone)
                   (initial_sstate {}))
          = Inr (''[1,,\"a\",,]'', [], [])"
    by code_simp
  then obtain s' where e:
    "serialize (example_ctx ALL_FEATURES)
       (ArrayNode 0 4 [Some (NumberNode 1), None, Some (StringNode ''a''), None] FlagNone)
       (initial_sstate {}) = Inr (''[1,,\"a\",,]'', s')"
    by (auto dest: outcome_InrD)
  from array_length_and_holes_preserved [OF p e] p e example_texts_ok
  show "\<exists>n st' r s'.
      generateArrayNode (example_penv ALL_FEATURES {})
          (parseSync 1 (example_penv ALL_FEATURES {})) 0 holey_array FlagNone
          (initial_pstate [ArrayObj holey_array FlagNone]) = Inr (n, st')
    \<and> n = ArrayNode 0 4 [Some (NumberNode 1), None, Some (StringNode ''a''), None] FlagNone
    \<and> serialize (example_ctx ALL_FEATURES) n (initial_sstate {}) = Inr (r, s')
    \<and> r = ''[1,,\"a\",,]''
    \<and> texts_ok (example_ctx ALL_FEATURES) (initial_sstate {})
    \<and> (\<exists>slots. r = assignIndexedValue (example_ctx ALL_FEATURES) 0
                      (array_literal slots (slots \<noteq> [] \<and> last slots = '''')) s'
          \<and> length slots = length holey_array
          \<and> (\<forall>k<length holey_array. holey_array ! k = None \<longrightarrow> slots ! k = '''')
          \<and> (\<forall>k<length holey_array. \<forall>v. holey_array ! k = Some v \<longrightarrow>
                (\<exists>nd st0 st1. parseSync 1 (example_penv ALL_FEATURES {}) v st0 = Inr (nd, st1)
                   \<and> (if is_IndexedValue nd \<and> node_i nd \<in> set (stack (initial_sstate {}) @ [0])
                       then slots ! k = ''''
                            \<and> Assignment AssignIndex
                                 (refName (example_ctx ALL_FEATURES) 0 @ ''['' @ show_nat k @ '']'')
                                 None (refName (example_ctx ALL_FEATURES) (node_i nd))
                               \<in> set (assignments s')
                       else (\<exists>s0 s1. stack s0 = stack (initial_sstate {}) @ [0]
                               \<and> serialize (example_ctx ALL_FEATURES) nd s0 = Inr (slots ! k, s1))
                            \<and> (texts_ok (example_ctx ALL_FEATURES) (initial_sstate {})
                                 \<longrightarrow> slots ! k \<noteq> ''''))))
          \<and> literal_length slots (slots \<noteq> [] \<and> last slots = '''') = length holey_array
          \<and> (holey_array = [] \<longrightarrow> r = assignIndexedValue (example_ctx ALL_FEATURES) 0 ''[]'' s'))"
    by blast
next
  have p: "generateArrayNode (example_penv ALL_FEATURES {})
             (parseSync 1 (example_penv ALL_FEATURES {})) 0 [Some (JObject 0)] FlagNone
             self_array_pstate
           = Inr (ArrayNode 0 1 [Some (IndexedValueNode 0)] FlagNone,
                  self_array_pstate\<lparr>pmarked := {0}\<rparr>)"
    by code_simp
  have "outcome (serialize (example_ctx ALL_FEATURES)
                   (ArrayNode 0 1 [Some (IndexedValueNode 0)] FlagNone) (initial_sstate {0}))
          = Inr (''v0=[,]'', [], [Assignment AssignIndex ''v0[0]'' None ''v0''])"
    by code_simp
  then obtain s' where e:
    "serialize (example_ctx ALL_FEATURES)
       (ArrayNode 0 1 [Some (IndexedValueNode 0)] FlagNone) (initial_sstate {0})
       = Inr (''v0=[,]'', s')" and
    a: "assignments s' = [Assignment AssignIndex ''v0[0]'' None ''v0'']"
    by (auto dest: outcome_InrD)
  from array_length_and_holes_preserved [OF p e] p e a
  show "\<exists>n st' r s'.
      generateArrayNode (example_penv ALL_FEATURES {})
          (parseSync 1 (example_penv ALL_FEATURES {})) 0 [Some (JObject 0)] FlagNone
          self_array_pstate = Inr (n, st')
    \<and> n = ArrayNode 0 1 [Some (IndexedValueNode 0)] FlagNone
    \<and> serialize (example_ctx ALL_FEATURES) n (initial_sstate {0}) = Inr (r, s')
    \<and> r = ''v0=[,]''
    \<and> assignments s' = [Assignment AssignIndex ''v0[0]'' None ''v0'']
    \<and> (\<exists>slots. r = assignIndexedValue (example_ctx ALL_FEATURES) 0
                      (array_literal slots (slots \<noteq> [] \<and> last slots = '''')) s'
          \<and> length slots = length [Some (JObject 0)]
          \<and> (\<forall>k<length [Some (JObject 0)]. [Some (JObject 0)] ! k = None \<longrightarrow> slots ! k = '''')
          \<and> (\<forall>k<length [Some (JObject 0)]. \<forall>v. [Some (JObject 0)] ! k = Some v \<longrightarrow>
                (\<exists>nd st0 st1. parseSync 1 (example_penv ALL_FEATURES {}) v st0 = Inr (nd, st1)
                   \<and> (if is_IndexedValue nd \<and> node_i nd \<in> set (stack (initial_sstate {0}) @ [0])
                       then slots ! k = ''''
                            \<and> Assignment AssignIndex
                                 (refName (example_ctx ALL_FEATURES) 0 @ ''['' @ show_nat k @ '']'')
                                 None (refName (example_ctx ALL_FEATURES) (node_i nd))
                               \<in> set (assignments s')
                       else (\<exists>s0 s1. stack s0 = stack (initial_sstate {0}) @ [0]
                               \<and> serialize (example_ctx ALL_FEATURES) nd s0 = Inr (slots ! k, s1))
                            \<and> (texts_ok (example_ctx ALL_FEATURES) (initial_sstate {0})
                                 \<longrightarrow> slots ! k \<noteq> ''''))))
          \<and> literal_length slots (slots \<noteq> [] \<and> last slots = '''')
              = length [Some (JObject 0)]
          \<and> ([Some (JObject 0)] = []
               \<longrightarrow> r = assignIndexedValue (example_ctx ALL_FEATURES) 0 ''[]'' s'))"
    by blast
qed

section \<open>Special numbers\<close>

text \<open>
  Claim C9. A number of the input goes to \<open>createNumberNode\<close> in all three parsers, which
  maps \<open>Infinity\<close>, \<open>-Infinity\<close>, \<open>NaN\<close> and \<open>-0\<close> to their constant nodes and not to Number
  nodes; \<open>serialize\<close> emits a constant node as its entry of \<open>CONSTANT_STRING\<close>. So the
  input \<open>1/0\<close> is serialized to the text \<open>1/0\<close>, and the three others to \<open>-1/0\<close>, \<open>0/0\<close>
  and \<open>-0\<close>.
\<close>

theorem serialize_Infinity:
  "parseSync (Suc fuel) e (JNumber x) st = Inr (createNumberNode x, st)
   \<and> parseAsync (Suc fuel) e (JNumber x) st = Inr (createNumberNode x, st)
   \<and> crossParseAsync (Suc fuel) e (JNumber x) st = Inr (createNumberNode x, st)
   \<and> createNumberNode PositiveInfinity = ConstantNode ConstInfinity
   \<and> createNumberNode NegativeInfinity = ConstantNode ConstNegativeInfinity
   \<and> createNumberNode NaN = ConstantNode ConstNaN
   \<and> createNumberNode NegativeZero = ConstantNode ConstNegativeZero
   \<and> serialize c (createNumberNode PositiveInfinity) s = Inr (''1/0'', s)
   \<and> serialize c (createNumberNode NegativeInfinity) s = Inr (''-1/0'', s)
   \<and> serialize c (createNumberNode NaN) s = Inr (''0/0'', s)
   \<and> serialize c (createNumberNode NegativeZero) s = Inr (''-0'', s)"
  by (simp add: parse_step_sync_def parse_step_async_def)

section \<open>One id for each object\<close>

text \<open>
  The id map is in order when the ids are the numbers below its size in insertion
  order, no object is registered twice, and every marked id is allocated.
\<close>

definition ids_ok :: "pstate \<Rightarrow> bool" where
  "ids_ok st \<longleftrightarrow>
     map snd (refs st) = [0..<length (refs st)] \<and> distinct (map fst (refs st))
     \<and> pmarked st \<subseteq> {..<length (refs st)}"

text \<open>A step of a parse only adds to the id map, and keeps it in order.\<close>

definition grows :: "pstate \<Rightarrow> pstate \<Rightarrow> bool" where
  "grows st st' \<longleftrightarrow> prefix (refs st) (refs st') \<and> (ids_ok st \<longrightarrow> ids_ok st')"

definition keeps_ids :: "parser \<Rightarrow> bool" where
  "keeps_ids rec \<longleftrightarrow> (\<forall>v st n st'. rec v st = Inr (n, st') \<longrightarrow> grows st st')"

definition allocates :: "(addr \<Rightarrow> pstate \<Rightarrow> nat \<times> pstate) \<Rightarrow> bool" where
  "allocates createId \<longleftrightarrow> (\<forall>a st i st'. createId a st = (i, st') \<longrightarrow> grows st st')"

lemma grows_refl [simp]: "grows st st"
  by (simp add: grows_def)

lemma grows_trans: "grows st st1 \<Longrightarrow> grows st1 st2 \<Longrightarrow> grows st st2"
  by (auto simp: grows_def)

lemma keeps_idsD: "keeps_ids rec \<Longrightarrow> rec v st = Inr (n, st') \<Longrightarrow> grows st st'"
  by (auto simp: keeps_ids_def)

lemma allocatesD: "allocates createId \<Longrightarrow> createId a st = (i, st') \<Longrightarrow> grows st st'"
  by (auto simp: allocates_def)

lemma grows_heap:
  "refs st' = refs st \<Longrightarrow> pmarked st' = pmarked st \<Longrightarrow> grows st st'"
  by (simp add: grows_def ids_ok_def)








lemma heap_alloc_grows: "heap_alloc obj st = (a, st') \<Longrightarrow> grows st st'"
  by (auto simp: heap_alloc_def intro: grows_heap)

lemma alloc_entries_grows: "alloc_entries es st = (xs, st') \<Longrightarrow> grows st st'"
proof (induction es arbitrary: st xs st')
  case Nil
  then show ?case by simp
next
  case (Cons x es)
  obtain k v where x: "x = (k, v)" by (cases x)
  obtain a st1 where h: "heap_alloc (ArrayObj [Some k, Some v] FlagNone) st = (a, st1)"
    by (cases "heap_alloc (ArrayObj [Some k, Some v] FlagNone) st")
  obtain rest st2 where r: "alloc_entries es st1 = (rest, st2)"
    by (cases "alloc_entries es st1")
  from Cons.prems x h r have "st' = st2" by simp
  with heap_alloc_grows [OF h] Cons.IH [OF r] show ?case by (blast intro: grows_trans)
qed

lemma array_from_grows: "array_from obj st = (xs, st') \<Longrightarrow> grows st st'"
  by (cases "(obj, st)" rule: array_from.cases) (auto dest: alloc_entries_grows)

lemma nodeList_first_grows:
  "nodeList_first e rec xs st = Inr (r, st') \<Longrightarrow> keeps_ids rec \<Longrightarrow> grows st st'"
proof (induction e rec xs st arbitrary: r st' rule: nodeList_first.induct)
  case (1 e rec st)
  then show ?case by simp
next
  case (2 e rec xs st)
  then show ?case by (auto split: sum.splits prod.splits)
next
  case (3 e rec item xs st)
  show ?case
  proof (cases "isIterable e item")
    case True
    with "3.prems" "3.IH"(1) show ?thesis by (auto split: sum.splits prod.splits)
  next
    case False
    with "3.prems" obtain n st1 r1 where
      a: "rec item st = Inr (n, st1)" and b: "nodeList_first e rec xs st1 = Inr (r1, st')"
      by (auto split: sum.splits prod.splits)
    from keeps_idsD [OF "3.prems"(2) a] "3.IH"(2) [OF False a refl b "3.prems"(2)]
    show ?thesis by (rule grows_trans)
  qed
qed

lemma nodeList_second_grows:
  "nodeList_second rec nodes pending st = Inr (r, st') \<Longrightarrow> keeps_ids rec \<Longrightarrow> grows st st'"
proof (induction rec nodes pending st arbitrary: r st' rule: nodeList_second.induct)
  case (2 rec n nodes item pending st)
  from "2.prems" obtain m st1 r1 where
    a: "rec item st = Inr (m, st1)" and b: "nodeList_second rec nodes pending st1 = Inr (r1, st')"
    by (auto split: sum.splits prod.splits)
  from keeps_idsD [OF "2.prems"(2) a] "2.IH" [OF a refl b "2.prems"(2)]
  show ?case by (rule grows_trans)
qed (auto split: sum.splits prod.splits)

lemma generateArrayNode_grows:
  assumes "generateArrayNode e rec i current flag st = Inr (n, st')" and "keeps_ids rec"
  shows "grows st st'"
proof -
  from assms(1) obtain nodes pending st1 a where
    f: "nodeList_first e rec current st = Inr ((nodes, pending), st1)" and
    s: "nodeList_second rec nodes pending st1 = Inr (a, st')"
    by (auto simp: generateArrayNode_def generateNodeList_def split: sum.splits prod.splits)
  from nodeList_first_grows [OF f assms(2)] nodeList_second_grows [OF s assms(2)]
  show ?thesis by (rule grows_trans)
qed

lemma mapEntries_first_grows:
  "mapEntries_first e rec es st = Inr (r, st') \<Longrightarrow> keeps_ids rec \<Longrightarrow> grows st st'"
proof (induction e rec es st arbitrary: r st' rule: mapEntries_first.induct)
  case (1 e rec st)
  then show ?case by simp
next
  case (2 e rec key val es st)
  show ?case
  proof (cases "isIterable e key \<or> isIterable e val")
    case True
    with "2.prems" "2.IH"(1) show ?thesis by (auto split: sum.splits prod.splits)
  next
    case False
    with "2.prems" obtain k st1 v st2 r1 where
      a: "rec key st = Inr (k, st1)" and b: "rec val st1 = Inr (v, st2)" and
      c: "mapEntries_first e rec es st2 = Inr (r1, st')"
      by (auto split: sum.splits prod.splits)
    from keeps_idsD [OF "2.prems"(2) a] keeps_idsD [OF "2.prems"(2) b]
    have "grows st st2" by (rule grows_trans)
    with "2.IH"(2) [OF False a refl b refl c "2.prems"(2)]
    show ?thesis by (blast intro: grows_trans)
  qed
qed

lemma mapEntries_second_grows:
  "mapEntries_second rec es st = Inr (r, st') \<Longrightarrow> keeps_ids rec \<Longrightarrow> grows st st'"
proof (induction rec es st arbitrary: r st' rule: mapEntries_second.induct)
  case (1 rec st)
  then show ?case by simp
next
  case (2 rec key val es st)
  from "2.prems" obtain k st1 v st2 r1 where
    a: "rec key st = Inr (k, st1)" and b: "rec val st1 = Inr (v, st2)" and
    c: "mapEntries_second rec es st2 = Inr (r1, st')"
    by (auto split: sum.splits prod.splits)
  from keeps_idsD [OF "2.prems"(2) a] keeps_idsD [OF "2.prems"(2) b]
  have "grows st st2" by (rule grows_trans)
  with "2.IH" [OF a refl b refl c "2.prems"(2)]
  show ?case by (blast intro: grows_trans)
qed

lemma generateMapNode_grows:
  assumes "generateMapNode e rec i entries st = Inr (n, st')" and "keeps_ids rec"
  shows "grows st st'"
proof -
  from assms(1) obtain r1 st1 r2 where
    f: "mapEntries_first e rec entries st = Inr (r1, st1)" and
    s: "mapEntries_second rec (snd r1) st1 = Inr (r2, st')"
    by (auto simp: generateMapNode_def split: sum.splits prod.splits)
  from mapEntries_first_grows [OF f assms(2)] mapEntries_second_grows [OF s assms(2)]
  show ?thesis by (rule grows_trans)
qed

lemma setItems_first_grows:
  "setItems_first e rec xs st = Inr (r, st') \<Longrightarrow> keeps_ids rec \<Longrightarrow> grows st st'"
proof (induction e rec xs st arbitrary: r st' rule: setItems_first.induct)
  case (1 e rec st)
  then show ?case by simp
next
  case (2 e rec item xs st)
  show ?case
  proof (cases "isIterable e item")
    case True
    with "2.prems" "2.IH"(1) show ?thesis by (auto split: sum.splits prod.splits)
  next
    case False
    with "2.prems" obtain n st1 r1 where
      a: "rec item st = Inr (n, st1)" and b: "setItems_first e rec xs st1 = Inr (r1, st')"
      by (auto split: sum.splits prod.splits)
    from keeps_idsD [OF "2.prems"(2) a] "2.IH"(2) [OF False a refl b "2.prems"(2)]
    show ?thesis by (rule grows_trans)
  qed
qed

lemma setItems_second_grows:
  "setItems_second rec xs st = Inr (r, st') \<Longrightarrow> keeps_ids rec \<Longrightarrow> grows st st'"
proof (induction rec xs st arbitrary: r st' rule: setItems_second.induct)
  case (1 rec st)
  then show ?case by simp
next
  case (2 rec item xs st)
  from "2.prems" obtain n st1 r1 where
    a: "rec item st = Inr (n, st1)" and b: "setItems_second rec xs st1 = Inr (r1, st')"
    by (auto split: sum.splits prod.splits)
  from keeps_idsD [OF "2.prems"(2) a] "2.IH" [OF a refl b "2.prems"(2)]
  show ?case by (rule grows_trans)
qed

lemma generateSetNode_grows:
  assumes "generateSetNode e rec i items st = Inr (n, st')" and "keeps_ids rec"
  shows "grows st st'"
proof -
  from assms(1) obtain r1 st1 r2 where
    f: "setItems_first e rec items st = Inr (r1, st1)" and
    s: "setItems_second rec (snd r1) st1 = Inr (r2, st')"
    by (auto simp: generateSetNode_def split: sum.splits prod.splits)
  from setItems_first_grows [OF f assms(2)] setItems_second_grows [OF s assms(2)]
  show ?thesis by (rule grows_trans)
qed

lemma properties_first_grows:
  "properties_first e rec xs st = Inr (r, st') \<Longrightarrow> keeps_ids rec \<Longrightarrow> grows st st'"
proof (induction e rec xs st arbitrary: r st' rule: properties_first.induct)
  case (1 e rec st)
  then show ?case by simp
next
  case (2 e rec key item xs st)
  show ?case
  proof (cases "isIterable e item")
    case True
    with "2.prems" "2.IH"(1) show ?thesis
      by (auto simp: Let_def split: sum.splits prod.splits)
  next
    case False
    with "2.prems" obtain n st1 r1 where
      a: "rec item st = Inr (n, st1)" and b: "properties_first e rec xs st1 = Inr (r1, st')"
      by (auto simp: Let_def split: sum.splits prod.splits)
    from keeps_idsD [OF "2.prems"(2) a] "2.IH"(2) [OF refl False a refl b "2.prems"(2)]
    show ?thesis by (rule grows_trans)
  qed
qed

lemma properties_second_grows:
  "properties_second rec xs st = Inr (r, st') \<Longrightarrow> keeps_ids rec \<Longrightarrow> grows st st'"
proof (induction rec xs st arbitrary: r st' rule: properties_second.induct)
  case (1 rec st)
  then show ?case by simp
next
  case (2 rec escaped item xs st)
  from "2.prems" obtain n st1 r1 where
    a: "rec item st = Inr (n, st1)" and b: "properties_second rec xs st1 = Inr (r1, st')"
    by (auto split: sum.splits prod.splits)
  from keeps_idsD [OF "2.prems"(2) a] "2.IH" [OF a refl b "2.prems"(2)]
  show ?case by (rule grows_trans)
qed

lemma generateProperties_grows:
  assumes "generateProperties e rec createId properties st = Inr (r, st')"
      and "keeps_ids rec" and "allocates createId"
  shows "grows st st'"
proof -
  from assms(1) obtain r1 st1 r2 st2 where
    f: "properties_first e rec (own_properties properties) st = Inr (r1, st1)" and
    s: "properties_second rec (snd r1) st1 = Inr (r2, st2)"
    by (auto simp: generateProperties_def Let_def split: sum.splits prod.splits)
  from properties_first_grows [OF f assms(2)] properties_second_grows [OF s assms(2)]
  have g2: "grows st st2" by (rule grows_trans)
  show ?thesis
  proof (cases "Feature_Symbol \<in> pfeatures e \<and> has_iterator properties")
    case False
    with assms(1) f s have "st' = st2"
      by (auto simp: generateProperties_def Let_def split: sum.splits prod.splits)
    with g2 show ?thesis by simp
  next
    case True
    obtain items st3 where a: "array_from properties st2 = (items, st3)"
      by (cases "array_from properties st2")
    obtain ad st4 where b: "heap_alloc (ArrayObj (map Some items) FlagNone) st3 = (ad, st4)"
      by (cases "heap_alloc (ArrayObj (map Some items) FlagNone) st3")
    obtain i st5 where c: "createId ad st4 = (i, st5)"
      by (cases "createId ad st4")
    from assms(1) f s True a b c obtain n where
      d: "generateArrayNode e rec i (map Some items) FlagNone st5 = Inr (n, st')"
      by (cases r1) (auto simp: generateProperties_def Let_def split: sum.splits prod.splits)
    from array_from_grows [OF a] heap_alloc_grows [OF b] have "grows st2 st4"
      by (rule grows_trans)
    with g2 have "grows st st4" by (rule grows_trans)
    with allocatesD [OF assms(3) c] have "grows st st5" by (blast intro: grows_trans)
    with generateArrayNode_grows [OF d assms(2)] show ?thesis by (blast intro: grows_trans)
  qed
qed

lemma generateObjectNode_grows:
  assumes "generateObjectNode e rec createId i current emptyProto flag st = Inr (n, st')"
      and "keeps_ids rec" and "allocates createId"
  shows "grows st st'"
proof -
  from assms(1) obtain r where "generateProperties e rec createId current st = Inr (r, st')"
    by (auto simp: generateObjectNode_def split: sum.splits prod.splits)
  from generateProperties_grows [OF this assms(2,3)] show ?thesis .
qed

lemma generateErrorNode_grows:
  assumes "generateErrorNode e rec createId i ec message options st = Inr (n, st')"
      and "keeps_ids rec" and "allocates createId"
  shows "grows st st'"
proof (cases options)
  case None
  with assms(1) show ?thesis by (simp add: generateErrorNode_def)
next
  case (Some props)
  with assms(1) obtain r where
    "generateProperties e rec createId (PlainObj False props None FlagNone) st = Inr (r, st')"
    by (auto simp: generateErrorNode_def split: sum.splits prod.splits)
  from generateProperties_grows [OF this assms(2,3)] show ?thesis .
qed

lemma generateBoxedNode_grows:
  "generateBoxedNode rec i v st = Inr (n, st') \<Longrightarrow> keeps_ids rec \<Longrightarrow> grows st st'"
  by (auto simp: generateBoxedNode_def dest: keeps_idsD split: sum.splits prod.splits)

lemma generatePromiseNode_grows:
  "generatePromiseNode rec i status v st = Inr (n, st') \<Longrightarrow> keeps_ids rec \<Longrightarrow> grows st st'"
  by (auto simp: generatePromiseNode_def dest: keeps_idsD split: sum.splits prod.splits)

lemma iterable_fallback_grows:
  "iterable_fallback e rec createId i current st = Inr (n, st') \<Longrightarrow> keeps_ids rec
   \<Longrightarrow> allocates createId \<Longrightarrow> grows st st'"
  by (auto simp: iterable_fallback_def dest: generateObjectNode_grows split: if_splits)

lemmas generator_grows =
  generateArrayNode_grows generateObjectNode_grows generateErrorNode_grows
  generateBoxedNode_grows generatePromiseNode_grows generateMapNode_grows
  generateSetNode_grows iterable_fallback_grows


lemma dispatch_sync_grows:
  "dispatch_sync e rec createId i obj st = Inr (n, st') \<Longrightarrow> keeps_ids rec
   \<Longrightarrow> allocates createId \<Longrightarrow> grows st st'"
  by (cases obj) (auto dest: generator_grows split: if_splits)

text \<open>The node that the dispatch builds for an object carries the id it was given.\<close>

lemma generator_ids:
  "generateArrayNode e rec i elems flag st = Inr (n, st') \<Longrightarrow> node_id n = Some i \<and> \<not> is_IndexedValue n"
  "generateObjectNode e rec createId i obj emptyProto flag st = Inr (n, st')
     \<Longrightarrow> node_id n = Some i \<and> \<not> is_IndexedValue n"
  "generateErrorNode e rec createId i ec message options st = Inr (n, st')
     \<Longrightarrow> node_id n = Some i \<and> \<not> is_IndexedValue n"
  "generateBoxedNode rec i v st = Inr (n, st') \<Longrightarrow> node_id n = Some i \<and> \<not> is_IndexedValue n"
  "generatePromiseNode rec i status v st = Inr (n, st') \<Longrightarrow> node_id n = Some i \<and> \<not> is_IndexedValue n"
  "generateMapNode e rec i entries st = Inr (n, st') \<Longrightarrow> node_id n = Some i \<and> \<not> is_IndexedValue n"
  "generateSetNode e rec i items st = Inr (n, st') \<Longrightarrow> node_id n = Some i \<and> \<not> is_IndexedValue n"
  by (auto simp: generateArrayNode_def generateObjectNode_def generateErrorNode_def
        generateBoxedNode_def generatePromiseNode_def generateMapNode_def generateSetNode_def
      split: sum.splits prod.splits option.splits if_splits)



lemma dispatch_sync_ids:
  "dispatch_sync e rec createId i obj st = Inr (n, st')
   \<Longrightarrow> node_id n = Some i \<and> \<not> is_IndexedValue n"
  by (cases obj) (auto dest: generator_ids split: if_splits)

















section \<open>A map when \<open>Feature.Map\<close> is disabled\<close>







section \<open>More fuel does not change a parse\<close>

text \<open>
  A parser \<open>rec'\<close> extends \<open>rec\<close> when it answers as \<open>rec\<close> does wherever \<open>rec\<close> has not run
  out of fuel. Every generator passes an error of a nested call on as it is, so a
  generator that has not run out of fuel with \<open>rec\<close> gives the same result with \<open>rec'\<close>.
\<close>

definition extends_parser :: "parser \<Rightarrow> parser \<Rightarrow> bool" where
  "extends_parser rec rec' \<longleftrightarrow> (\<forall>v st. rec v st \<noteq> Inl OutOfFuel \<longrightarrow> rec' v st = rec v st)"

lemma extends_parserD:
  "extends_parser rec rec' \<Longrightarrow> rec v st \<noteq> Inl OutOfFuel \<Longrightarrow> rec' v st = rec v st"
  by (simp add: extends_parser_def)

lemma nodeList_first_fuel:
  "extends_parser rec rec' \<Longrightarrow> nodeList_first e rec xs st \<noteq> Inl OutOfFuel
   \<Longrightarrow> nodeList_first e rec' xs st = nodeList_first e rec xs st"
proof (induction e rec xs st rule: nodeList_first.induct)
  case (1 e rec st)
  show ?case by simp
next
  case (2 e rec xs st)
  then show ?case by (auto split: sum.splits prod.splits)
next
  case (3 e rec item xs st)
  show ?case
  proof (cases "isIterable e item")
    case True
    with 3 show ?thesis by (auto split: sum.splits prod.splits)
  next
    case False
    from "3.prems"(2) False have r: "rec item st \<noteq> Inl OutOfFuel"
      by (auto split: sum.splits prod.splits)
    from extends_parserD [OF "3.prems"(1) r] have e: "rec' item st = rec item st" .
    show ?thesis
    proof (cases "rec item st")
      case (Inl err)
      with e False show ?thesis by simp
    next
      case (Inr p)
      obtain n st1 where p: "p = (n, st1)" by (cases p)
      from "3.prems"(2) False Inr p have "nodeList_first e rec xs st1 \<noteq> Inl OutOfFuel"
        by (auto split: sum.splits prod.splits)
      from "3.IH"(2) [OF False Inr p [symmetric] "3.prems"(1) this] e False Inr p
      show ?thesis by simp
    qed
  qed
qed
lemma nodeList_second_fuel:
  "extends_parser rec rec' \<Longrightarrow> nodeList_second rec nodes later st \<noteq> Inl OutOfFuel
   \<Longrightarrow> nodeList_second rec' nodes later st = nodeList_second rec nodes later st"
proof (induction rec nodes later st rule: nodeList_second.induct)
  case (2 rec n nodes item later st)
  from "2.prems"(2) have r: "rec item st \<noteq> Inl OutOfFuel"
    by (auto split: sum.splits prod.splits)
  from extends_parserD [OF "2.prems"(1) r] have e: "rec' item st = rec item st" .
  show ?case
  proof (cases "rec item st")
    case (Inl err)
    with e show ?thesis by simp
  next
    case (Inr p)
    obtain m st1 where p: "p = (m, st1)" by (cases p)
    from "2.prems"(2) Inr p have "nodeList_second rec nodes later st1 \<noteq> Inl OutOfFuel"
      by (auto split: sum.splits prod.splits)
    from "2.IH" [OF Inr p [symmetric] "2.prems"(1) this] e Inr p
    show ?thesis by simp
  qed
qed (auto split: sum.splits prod.splits)

lemma generateArrayNode_fuel:
  assumes "extends_parser rec rec'"
      and "generateArrayNode e rec i current flag st \<noteq> Inl OutOfFuel"
  shows "generateArrayNode e rec' i current flag st = generateArrayNode e rec i current flag st"
proof -
  from assms(2) have f: "nodeList_first e rec current st \<noteq> Inl OutOfFuel"
    by (auto simp: generateArrayNode_def generateNodeList_def split: sum.splits prod.splits)
  note f' = nodeList_first_fuel [OF assms(1) f]
  show ?thesis
  proof (cases "nodeList_first e rec current st")
    case (Inl err)
    with f' show ?thesis by (simp add: generateArrayNode_def generateNodeList_def)
  next
    case (Inr p)
    obtain nodes later st1 where p: "p = ((nodes, later), st1)" by (cases p) auto
    from assms(2) Inr p have "nodeList_second rec nodes later st1 \<noteq> Inl OutOfFuel"
      by (auto simp: generateArrayNode_def generateNodeList_def split: sum.splits prod.splits)
    from nodeList_second_fuel [OF assms(1) this] f' Inr p show ?thesis
      by (simp add: generateArrayNode_def generateNodeList_def)
  qed
qed
lemma mapEntries_first_fuel:
  "extends_parser rec rec' \<Longrightarrow> mapEntries_first e rec es st \<noteq> Inl OutOfFuel
   \<Longrightarrow> mapEntries_first e rec' es st = mapEntries_first e rec es st"
proof (induction e rec es st rule: mapEntries_first.induct)
  case (1 e rec st)
  show ?case by simp
next
  case (2 e rec key val es st)
  show ?case
  proof (cases "isIterable e key \<or> isIterable e val")
    case True
    with 2 show ?thesis by (auto split: sum.splits prod.splits)
  next
    case False
    from "2.prems"(2) False have r: "rec key st \<noteq> Inl OutOfFuel"
      by (auto split: sum.splits prod.splits)
    from extends_parserD [OF "2.prems"(1) r] have e: "rec' key st = rec key st" .
    show ?thesis
    proof (cases "rec key st")
      case (Inl err)
      with e False show ?thesis by simp
    next
      case (Inr p)
      obtain k st1 where p: "p = (k, st1)" by (cases p)
      from "2.prems"(2) False Inr p have r2: "rec val st1 \<noteq> Inl OutOfFuel"
        by (auto split: sum.splits prod.splits)
      from extends_parserD [OF "2.prems"(1) r2] have e2: "rec' val st1 = rec val st1" .
      show ?thesis
      proof (cases "rec val st1")
        case (Inl err)
        with e e2 False Inr p show ?thesis by simp
      next
        case q: (Inr p2)
        obtain v st2 where p2: "p2 = (v, st2)" by (cases p2)
        from "2.prems"(2) False Inr p q p2 have "mapEntries_first e rec es st2 \<noteq> Inl OutOfFuel"
          by (auto split: sum.splits prod.splits)
        from "2.IH"(2) [OF False Inr p [symmetric] q p2 [symmetric] "2.prems"(1) this]
             e e2 False Inr p q p2
        show ?thesis by simp
      qed
    qed
  qed
qed

lemma mapEntries_second_fuel:
  "extends_parser rec rec' \<Longrightarrow> mapEntries_second rec es st \<noteq> Inl OutOfFuel
   \<Longrightarrow> mapEntries_second rec' es st = mapEntries_second rec es st"
proof (induction rec es st rule: mapEntries_second.induct)
  case (1 rec st)
  show ?case by simp
next
  case (2 rec key val es st)
  from "2.prems"(2) have r: "rec key st \<noteq> Inl OutOfFuel"
    by (auto split: sum.splits prod.splits)
  from extends_parserD [OF "2.prems"(1) r] have e: "rec' key st = rec key st" .
  show ?case
  proof (cases "rec key st")
    case (Inl err)
    with e show ?thesis by simp
  next
    case (Inr p)
    obtain k st1 where p: "p = (k, st1)" by (cases p)
    from "2.prems"(2) Inr p have r2: "rec val st1 \<noteq> Inl OutOfFuel"
      by (auto split: sum.splits prod.splits)
    from extends_parserD [OF "2.prems"(1) r2] have e2: "rec' val st1 = rec val st1" .
    show ?thesis
    proof (cases "rec val st1")
      case (Inl err)
      with e e2 Inr p show ?thesis by simp
    next
      case q: (Inr p2)
      obtain v st2 where p2: "p2 = (v, st2)" by (cases p2)
      from "2.prems"(2) Inr p q p2 have "mapEntries_second rec es st2 \<noteq> Inl OutOfFuel"
        by (auto split: sum.splits prod.splits)
      from "2.IH" [OF Inr p [symmetric] q p2 [symmetric] "2.prems"(1) this] e e2 Inr p q p2
      show ?thesis by simp
    qed
  qed
qed

lemma generateMapNode_fuel:
  assumes "extends_parser rec rec'"
      and "generateMapNode e rec i entries st \<noteq> Inl OutOfFuel"
  shows "generateMapNode e rec' i entries st = generateMapNode e rec i entries st"
proof -
  from assms(2) have f: "mapEntries_first e rec entries st \<noteq> Inl OutOfFuel"
    by (auto simp: generateMapNode_def split: sum.splits prod.splits)
  note f' = mapEntries_first_fuel [OF assms(1) f]
  show ?thesis
  proof (cases "mapEntries_first e rec entries st")
    case (Inl err)
    with f' show ?thesis by (simp add: generateMapNode_def)
  next
    case (Inr p)
    obtain nodes later st1 where p: "p = ((nodes, later), st1)" by (cases p) auto
    from assms(2) Inr p have "mapEntries_second rec later st1 \<noteq> Inl OutOfFuel"
      by (auto simp: generateMapNode_def split: sum.splits prod.splits)
    from mapEntries_second_fuel [OF assms(1) this] f' Inr p show ?thesis
      by (simp add: generateMapNode_def)
  qed
qed

lemma setItems_first_fuel:
  "extends_parser rec rec' \<Longrightarrow> setItems_first e rec xs st \<noteq> Inl OutOfFuel
   \<Longrightarrow> setItems_first e rec' xs st = setItems_first e rec xs st"
proof (induction e rec xs st rule: setItems_first.induct)
  case (1 e rec st)
  show ?case by simp
next
  case (2 e rec item xs st)
  show ?case
  proof (cases "isIterable e item")
    case True
    with 2 show ?thesis by (auto split: sum.splits prod.splits)
  next
    case False
    from "2.prems"(2) False have r: "rec item st \<noteq> Inl OutOfFuel"
      by (auto split: sum.splits prod.splits)
    from extends_parserD [OF "2.prems"(1) r] have e: "rec' item st = rec item st" .
    show ?thesis
    proof (cases "rec item st")
      case (Inl err)
      with e False show ?thesis by simp
    next
      case (Inr p)
      obtain n st1 where p: "p = (n, st1)" by (cases p)
      from "2.prems"(2) False Inr p have "setItems_first e rec xs st1 \<noteq> Inl OutOfFuel"
        by (auto split: sum.splits prod.splits)
      from "2.IH"(2) [OF False Inr p [symmetric] "2.prems"(1) this] e False Inr p
      show ?thesis by simp
    qed
  qed
qed

lemma setItems_second_fuel:
  "extends_parser rec rec' \<Longrightarrow> setItems_second rec xs st \<noteq> Inl OutOfFuel
   \<Longrightarrow> setItems_second rec' xs st = setItems_second rec xs st"
proof (induction rec xs st rule: setItems_second.induct)
  case (1 rec st)
  show ?case by simp
next
  case (2 rec item xs st)
  from "2.prems"(2) have r: "rec item st \<noteq> Inl OutOfFuel"
    by (auto split: sum.splits prod.splits)
  from extends_parserD [OF "2.prems"(1) r] have e: "rec' item st = rec item st" .
  show ?case
  proof (cases "rec item st")
    case (Inl err)
    with e show ?thesis by simp
  next
    case (Inr p)
    obtain n st1 where p: "p = (n, st1)" by (cases p)
    from "2.prems"(2) Inr p have "setItems_second rec xs st1 \<noteq> Inl OutOfFuel"
      by (auto split: sum.splits prod.splits)
    from "2.IH" [OF Inr p [symmetric] "2.prems"(1) this] e Inr p
    show ?thesis by simp
  qed
qed

lemma generateSetNode_fuel:
  assumes "extends_parser rec rec'"
      and "generateSetNode e rec i items st \<noteq> Inl OutOfFuel"
  shows "generateSetNode e rec' i items st = generateSetNode e rec i items st"
proof -
  from assms(2) have f: "setItems_first e rec items st \<noteq> Inl OutOfFuel"
    by (auto simp: generateSetNode_def split: sum.splits prod.splits)
  note f' = setItems_first_fuel [OF assms(1) f]
  show ?thesis
  proof (cases "setItems_first e rec items st")
    case (Inl err)
    with f' show ?thesis by (simp add: generateSetNode_def)
  next
    case (Inr p)
    obtain nodes later st1 where p: "p = ((nodes, later), st1)" by (cases p) auto
    from assms(2) Inr p have "setItems_second rec later st1 \<noteq> Inl OutOfFuel"
      by (auto simp: generateSetNode_def split: sum.splits prod.splits)
    from setItems_second_fuel [OF assms(1) this] f' Inr p show ?thesis
      by (simp add: generateSetNode_def)
  qed
qed

lemma properties_first_fuel:
  "extends_parser rec rec' \<Longrightarrow> properties_first e rec xs st \<noteq> Inl OutOfFuel
   \<Longrightarrow> properties_first e rec' xs st = properties_first e rec xs st"
proof (induction e rec xs st rule: properties_first.induct)
  case (1 e rec st)
  show ?case by simp
next
  case (2 e rec key item xs st)
  show ?case
  proof (cases "isIterable e item")
    case True
    with 2 show ?thesis by (auto simp: Let_def split: sum.splits prod.splits)
  next
    case False
    from "2.prems"(2) False have r: "rec item st \<noteq> Inl OutOfFuel"
      by (auto simp: Let_def split: sum.splits prod.splits)
    from extends_parserD [OF "2.prems"(1) r] have e: "rec' item st = rec item st" .
    show ?thesis
    proof (cases "rec item st")
      case (Inl err)
      with e False show ?thesis by (simp add: Let_def)
    next
      case (Inr p)
      obtain n st1 where p: "p = (n, st1)" by (cases p)
      from "2.prems"(2) False Inr p have "properties_first e rec xs st1 \<noteq> Inl OutOfFuel"
        by (auto simp: Let_def split: sum.splits prod.splits)
      from "2.IH"(2) [OF refl False Inr p [symmetric] "2.prems"(1) this] e False Inr p
      show ?thesis by (simp add: Let_def)
    qed
  qed
qed

lemma properties_second_fuel:
  "extends_parser rec rec' \<Longrightarrow> properties_second rec xs st \<noteq> Inl OutOfFuel
   \<Longrightarrow> properties_second rec' xs st = properties_second rec xs st"
proof (induction rec xs st rule: properties_second.induct)
  case (1 rec st)
  show ?case by simp
next
  case (2 rec escaped item xs st)
  from "2.prems"(2) have r: "rec item st \<noteq> Inl OutOfFuel"
    by (auto split: sum.splits prod.splits)
  from extends_parserD [OF "2.prems"(1) r] have e: "rec' item st = rec item st" .
  show ?case
  proof (cases "rec item st")
    case (Inl err)
    with e show ?thesis by simp
  next
    case (Inr p)
    obtain n st1 where p: "p = (n, st1)" by (cases p)
    from "2.prems"(2) Inr p have "properties_second rec xs st1 \<noteq> Inl OutOfFuel"
      by (auto split: sum.splits prod.splits)
    from "2.IH" [OF Inr p [symmetric] "2.prems"(1) this] e Inr p
    show ?thesis by simp
  qed
qed
lemma generateProperties_fuel:
  assumes "extends_parser rec rec'"
      and "generateProperties e rec createId properties st \<noteq> Inl OutOfFuel"
  shows "generateProperties e rec' createId properties st
           = generateProperties e rec createId properties st"
proof -
  let ?keys = "own_properties properties"
  from assms(2) have f: "properties_first e rec ?keys st \<noteq> Inl OutOfFuel"
    by (auto simp: generateProperties_def Let_def split: sum.splits prod.splits)
  note f' = properties_first_fuel [OF assms(1) f]
  show ?thesis
  proof (cases "properties_first e rec ?keys st")
    case (Inl err)
    with f' show ?thesis by (simp add: generateProperties_def Let_def)
  next
    case (Inr p)
    obtain nodes later st1 where p: "p = ((nodes, later), st1)" by (cases p) auto
    from assms(2) Inr p have s: "properties_second rec later st1 \<noteq> Inl OutOfFuel"
      by (auto simp: generateProperties_def Let_def split: sum.splits prod.splits)
    note s' = properties_second_fuel [OF assms(1) s]
    show ?thesis
    proof (cases "properties_second rec later st1")
      case (Inl err)
      with f' s' Inr p show ?thesis by (simp add: generateProperties_def Let_def)
    next
      case q: (Inr p2)
      obtain nodes' st2 where p2: "p2 = (nodes', st2)" by (cases p2)
      show ?thesis
      proof (cases "Feature_Symbol \<in> pfeatures e \<and> has_iterator properties")
        case False
        with f' s' Inr p q p2 show ?thesis by (auto simp: generateProperties_def Let_def)
      next
        case True
        obtain items st3 where a: "array_from properties st2 = (items, st3)"
          by (cases "array_from properties st2")
        obtain ad st4 where b: "heap_alloc (ArrayObj (map Some items) FlagNone) st3 = (ad, st4)"
          by (cases "heap_alloc (ArrayObj (map Some items) FlagNone) st3")
        obtain j st5 where c: "createId ad st4 = (j, st5)"
          by (cases "createId ad st4")
        from assms(2) Inr p q p2 True a b c have
          "generateArrayNode e rec j (map Some items) FlagNone st5 \<noteq> Inl OutOfFuel"
          by (auto simp: generateProperties_def Let_def split: sum.splits prod.splits)
        from generateArrayNode_fuel [OF assms(1) this] f' s' Inr p q p2 True a b c
        show ?thesis by (simp add: generateProperties_def Let_def)
      qed
    qed
  qed
qed

lemma generateObjectNode_fuel:
  assumes "extends_parser rec rec'"
      and "generateObjectNode e rec createId i current emptyProto flag st \<noteq> Inl OutOfFuel"
  shows "generateObjectNode e rec' createId i current emptyProto flag st
           = generateObjectNode e rec createId i current emptyProto flag st"
proof -
  from assms(2) have "generateProperties e rec createId current st \<noteq> Inl OutOfFuel"
    by (auto simp: generateObjectNode_def split: sum.splits prod.splits)
  from generateProperties_fuel [OF assms(1) this] show ?thesis
    by (simp add: generateObjectNode_def)
qed

lemma generateErrorNode_fuel:
  assumes "extends_parser rec rec'"
      and "generateErrorNode e rec createId i ec message options st \<noteq> Inl OutOfFuel"
  shows "generateErrorNode e rec' createId i ec message options st
           = generateErrorNode e rec createId i ec message options st"
proof (cases options)
  case None
  then show ?thesis by (simp add: generateErrorNode_def)
next
  case (Some props)
  with assms(2) have
    "generateProperties e rec createId (PlainObj False props None FlagNone) st \<noteq> Inl OutOfFuel"
    by (auto simp: generateErrorNode_def split: sum.splits prod.splits)
  from generateProperties_fuel [OF assms(1) this] Some show ?thesis
    by (simp add: generateErrorNode_def)
qed

lemma generateBoxedNode_fuel:
  assumes "extends_parser rec rec'" and "generateBoxedNode rec i v st \<noteq> Inl OutOfFuel"
  shows "generateBoxedNode rec' i v st = generateBoxedNode rec i v st"
proof -
  from assms(2) have "rec v st \<noteq> Inl OutOfFuel"
    by (auto simp: generateBoxedNode_def split: sum.splits prod.splits)
  from extends_parserD [OF assms(1) this] show ?thesis by (simp add: generateBoxedNode_def)
qed

lemma generatePromiseNode_fuel:
  assumes "extends_parser rec rec'" and "generatePromiseNode rec i status v st \<noteq> Inl OutOfFuel"
  shows "generatePromiseNode rec' i status v st = generatePromiseNode rec i status v st"
proof -
  from assms(2) have "rec v st \<noteq> Inl OutOfFuel"
    by (auto simp: generatePromiseNode_def split: sum.splits prod.splits)
  from extends_parserD [OF assms(1) this] show ?thesis by (simp add: generatePromiseNode_def)
qed

lemma iterable_fallback_fuel:
  assumes "extends_parser rec rec'"
      and "iterable_fallback e rec createId i current st \<noteq> Inl OutOfFuel"
  shows "iterable_fallback e rec' createId i current st
           = iterable_fallback e rec createId i current st"
  using assms by (auto simp: iterable_fallback_def dest: generateObjectNode_fuel)

lemmas generator_fuel =
  generateArrayNode_fuel generateObjectNode_fuel generateErrorNode_fuel generateBoxedNode_fuel
  generatePromiseNode_fuel generateMapNode_fuel generateSetNode_fuel iterable_fallback_fuel

lemma dispatch_async_fuel:
  assumes "extends_parser rec rec'"
      and "dispatch_async e rec createId i obj st \<noteq> Inl OutOfFuel"
  shows "dispatch_async e rec' createId i obj st = dispatch_async e rec createId i obj st"
  using assms by (cases obj) (auto dest: generator_fuel)

lemma dispatch_sync_fuel:
  assumes "extends_parser rec rec'"
      and "dispatch_sync e rec createId i obj st \<noteq> Inl OutOfFuel"
  shows "dispatch_sync e rec' createId i obj st = dispatch_sync e rec createId i obj st"
  using assms by (cases obj) (auto dest: generator_fuel)

lemma parseObject_fuel:
  assumes "extends_parser rec rec'"
  shows "parseObject_sync e rec current st \<noteq> Inl OutOfFuel
           \<Longrightarrow> parseObject_sync e rec' current st = parseObject_sync e rec current st"
    and "parseObject_tree e rec current st \<noteq> Inl OutOfFuel
           \<Longrightarrow> parseObject_tree e rec' current st = parseObject_tree e rec current st"
    and "parseObject_cross e rec current st \<noteq> Inl OutOfFuel
           \<Longrightarrow> parseObject_cross e rec' current st = parseObject_cross e rec current st"
  using assms
  by (auto simp: parseObject_sync_def parseObject_tree_def parseObject_cross_def Let_def
           dest: dispatch_sync_fuel dispatch_async_fuel split: option.splits prod.splits)

lemma parse_step_fuel:
  assumes "extends_parser rec rec'"
  shows "parse_step_sync e rec v st \<noteq> Inl OutOfFuel
           \<Longrightarrow> parse_step_sync e rec' v st = parse_step_sync e rec v st"
    and "parse_step_async parseObject_tree e rec v st \<noteq> Inl OutOfFuel
           \<Longrightarrow> parse_step_async parseObject_tree e rec' v st
               = parse_step_async parseObject_tree e rec v st"
    and "parse_step_async parseObject_cross e rec v st \<noteq> Inl OutOfFuel
           \<Longrightarrow> parse_step_async parseObject_cross e rec' v st
               = parse_step_async parseObject_cross e rec v st"
  using assms
  by (auto simp: parse_step_sync_def parse_step_async_def dest: parseObject_fuel
           split: jsval.splits)

lemma parse_Suc_fuel:
  "extends_parser (parseSync fuel e) (parseSync (Suc fuel) e)"
  "extends_parser (parseAsync fuel e) (parseAsync (Suc fuel) e)"
  "extends_parser (crossParseAsync fuel e) (crossParseAsync (Suc fuel) e)"
proof -
  show "extends_parser (parseSync fuel e) (parseSync (Suc fuel) e)"
  proof (induction fuel)
    case 0
    show ?case by (simp add: extends_parser_def)
  next
    case (Suc fuel)
    show ?case
      unfolding extends_parser_def
    proof (intro allI impI)
      fix v st assume "parseSync (Suc fuel) e v st \<noteq> Inl OutOfFuel"
      then have "parse_step_sync e (parseSync fuel e) v st \<noteq> Inl OutOfFuel" by simp
      from parse_step_fuel(1) [OF Suc this]
      have "parse_step_sync e (parseSync (Suc fuel) e) v st = parse_step_sync e (parseSync fuel e) v st" .
      also have "\<dots> = parseSync (Suc fuel) e v st" by (rule parseSync.simps(2) [symmetric])
      finally show "parseSync (Suc (Suc fuel)) e v st = parseSync (Suc fuel) e v st"
        by (subst parseSync.simps(2))
    qed
  qed
  show "extends_parser (parseAsync fuel e) (parseAsync (Suc fuel) e)"
  proof (induction fuel)
    case 0
    show ?case by (simp add: extends_parser_def)
  next
    case (Suc fuel)
    show ?case
      unfolding extends_parser_def
    proof (intro allI impI)
      fix v st assume "parseAsync (Suc fuel) e v st \<noteq> Inl OutOfFuel"
      then have "parse_step_async parseObject_tree e (parseAsync fuel e) v st \<noteq> Inl OutOfFuel"
        by simp
      from parse_step_fuel(2) [OF Suc this]
      have "parse_step_async parseObject_tree e (parseAsync (Suc fuel) e) v st = parse_step_async parseObject_tree e (parseAsync fuel e) v st" .
      also have "\<dots> = parseAsync (Suc fuel) e v st" by (rule parseAsync.simps(2) [symmetric])
      finally show "parseAsync (Suc (Suc fuel)) e v st = parseAsync (Suc fuel) e v st"
        by (subst parseAsync.simps(2))
    qed
  qed
  show "extends_parser (crossParseAsync fuel e) (crossParseAsync (Suc fuel) e)"
  proof (induction fuel)
    case 0
    show ?case by (simp add: extends_parser_def)
  next
    case (Suc fuel)
    show ?case
      unfolding extends_parser_def
    proof (intro allI impI)
      fix v st assume "crossParseAsync (Suc fuel) e v st \<noteq> Inl OutOfFuel"
      then have "parse_step_async parseObject_cross e (crossParseAsync fuel e) v st
                   \<noteq> Inl OutOfFuel"
        by simp
      from parse_step_fuel(3) [OF Suc this]
      have "parse_step_async parseObject_cross e (crossParseAsync (Suc fuel) e) v st = parse_step_async parseObject_cross e (crossParseAsync fuel e) v st" .
      also have "\<dots> = crossParseAsync (Suc fuel) e v st" by (rule crossParseAsync.simps(2) [symmetric])
      finally show "crossParseAsync (Suc (Suc fuel)) e v st = crossParseAsync (Suc fuel) e v st"
        by (subst crossParseAsync.simps(2))
    qed
  qed
qed

text \<open>
  The result of a parse that has not run out of fuel is the result for every larger
  amount of fuel: what the parsers answer does not depend on the fuel beyond its being
  enough.
\<close>

lemma parse_more_fuel:
  "parseSync fuel e v st \<noteq> Inl OutOfFuel
     \<Longrightarrow> parseSync (fuel + extra) e v st = parseSync fuel e v st"
  "parseAsync fuel e v st \<noteq> Inl OutOfFuel
     \<Longrightarrow> parseAsync (fuel + extra) e v st = parseAsync fuel e v st"
  "crossParseAsync fuel e v st \<noteq> Inl OutOfFuel
     \<Longrightarrow> crossParseAsync (fuel + extra) e v st = crossParseAsync fuel e v st"
proof -
  show "parseSync fuel e v st \<noteq> Inl OutOfFuel
          \<Longrightarrow> parseSync (fuel + extra) e v st = parseSync fuel e v st"
  proof (induction extra)
    case 0
    show ?case by simp
  next
    case (Suc extra)
    from Suc have "parseSync (fuel + extra) e v st \<noteq> Inl OutOfFuel" by simp
    from extends_parserD [OF parse_Suc_fuel(1) this] Suc show ?case by simp
  qed
  show "parseAsync fuel e v st \<noteq> Inl OutOfFuel
          \<Longrightarrow> parseAsync (fuel + extra) e v st = parseAsync fuel e v st"
  proof (induction extra)
    case 0
    show ?case by simp
  next
    case (Suc extra)
    from Suc have "parseAsync (fuel + extra) e v st \<noteq> Inl OutOfFuel" by simp
    from extends_parserD [OF parse_Suc_fuel(2) this] Suc show ?case by simp
  qed
  show "crossParseAsync fuel e v st \<noteq> Inl OutOfFuel
          \<Longrightarrow> crossParseAsync (fuel + extra) e v st = crossParseAsync fuel e v st"
  proof (induction extra)
    case 0
    show ?case by simp
  next
    case (Suc extra)
    from Suc have "crossParseAsync (fuel + extra) e v st \<noteq> Inl OutOfFuel" by simp
    from extends_parserD [OF parse_Suc_fuel(3) this] Suc show ?case by simp
  qed
qed

section \<open>The streaming driver\<close>


text \<open>
  What the user sees: the calls of \<open>options.onData\<close>, \<open>options.onDone\<close> and
  \<open>options.onError\<close>, and the calls of the cleanup functions that
  \<open>crossSerializeStream\<close> has returned.
\<close>

datatype callback = OnData string | OnDone | OnError string | Cleanup nat

text \<open>
  The options that the class reads: the global identifier and whether \<open>onDone\<close> is
  given. \<open>escapeKey\<close> is \<open>serializeString\<close> of \<open>string.ts\<close>.
\<close>

record options =
  globalIdentifier :: string
  has_onDone :: bool
  escapeKey :: "string \<Rightarrow> string"

text \<open>
  The fields of the class (\<open>isDone\<close> is the field \<open>done\<close>; \<open>refs\<close> and \<open>specials\<close> are only
  passed on to the streams), the key of each stream that was started, which its
  callbacks hold in their closure, and the calls made so far.
\<close>

record driver =
  alive :: bool
  flushed :: bool
  isDone :: bool
  pending :: int
  cleanups :: "nat list"
  keys :: "string list"
  ids :: nat
  roots :: "string list"
  log :: "callback list"


text \<open>\<open>options.onDone(); this.done = true\<close>, which three methods do under their own test.\<close>

definition fire_onDone :: "driver \<Rightarrow> driver" where
  "fire_onDone s = s\<lparr>log := log s @ [OnDone], isDone := True\<rparr>"




text \<open>
  \<open>getNextID\<close>: the loop advances \<open>ids\<close> while its decimal text is a key. Each round
  passes a different key, so the loop makes at most as many rounds as there are keys,
  which is the fuel it is given (\<open>getNextID_is_free\<close> below).
\<close>

fun getNextID_loop :: "nat \<Rightarrow> string list \<Rightarrow> nat \<Rightarrow> nat" where
  "getNextID_loop 0 ks n = n"
| "getNextID_loop (Suc fuel) ks n =
     (if show_nat n \<in> set ks then getNextID_loop fuel ks (n + 1) else n)"

definition getNextID :: "driver \<Rightarrow> string \<times> driver" where
  "getNextID s =
     (let n = getNextID_loop (length (keys s)) (keys s) (ids s)
      in (show_nat n, s\<lparr>ids := n\<rparr>))"



definition close :: "options \<Rightarrow> driver \<Rightarrow> driver" where
  "close opts s =
     (if alive s then
        (let s1 = s\<lparr>log := log s @ map Cleanup (cleanups s)\<rparr>;
             s2 = (if \<not> isDone s1 \<and> has_onDone opts then fire_onDone s1 else s1)
         in s2\<lparr>alive := False\<rparr>)
      else s)"
















text \<open>
  The fuel of \<open>getNextID\<close> is enough: different numbers have different decimal texts,
  so the loop stops within as many rounds as there are keys, at the first number from
  \<open>ids\<close> on whose text is not a key.
\<close>

lemma digit_char_inj:
  assumes "digit_char a = digit_char b" and "a < 10" and "b < 10"
  shows "a = b"
proof -
  have "\<forall>x\<in>set [0..<10]. \<forall>y\<in>set [0..<10]. digit_char x = digit_char y \<longrightarrow> x = y"
    by code_simp
  with assms show ?thesis by simp
qed

lemma show_nat_length: "0 < length (show_nat n)"
  by (subst show_nat.simps) simp

lemma show_nat_inj: "show_nat m = show_nat n \<Longrightarrow> m = n"
proof (induction m arbitrary: n rule: show_nat.induct)
  case (1 m)
  show ?case
  proof (cases "m < 10")
    case True
    then have m: "show_nat m = [digit_char m]" by (subst show_nat.simps) simp
    show ?thesis
    proof (cases "n < 10")
      case n: True
      then have "show_nat n = [digit_char n]" by (subst show_nat.simps) simp
      with m "1.prems" True n show ?thesis by (auto dest: digit_char_inj)
    next
      case False
      then have "show_nat n = show_nat (n div 10) @ [digit_char (n mod 10)]"
        by (subst show_nat.simps) simp
      with m "1.prems" show_nat_length [of "n div 10"] show ?thesis by auto
    qed
  next
    case False
    then have m: "show_nat m = show_nat (m div 10) @ [digit_char (m mod 10)]"
      by (subst show_nat.simps) simp
    show ?thesis
    proof (cases "n < 10")
      case True
      then have "show_nat n = [digit_char n]" by (subst show_nat.simps) simp
      with m "1.prems" show_nat_length [of "m div 10"] show ?thesis by auto
    next
      case n: False
      then have "show_nat n = show_nat (n div 10) @ [digit_char (n mod 10)]"
        by (subst show_nat.simps) simp
      with m "1.prems" have
        q: "show_nat (m div 10) = show_nat (n div 10)" and
        r: "digit_char (m mod 10) = digit_char (n mod 10)"
        by simp_all
      from "1.IH" [OF False q] have "m div 10 = n div 10" .
      moreover from r have "m mod 10 = n mod 10" by (rule digit_char_inj) simp_all
      ultimately show ?thesis by (metis div_mult_mod_eq)
    qed
  qed
qed


lemma getNextID_loop_free:
  "card {k \<in> set ks. \<exists>m\<ge>n. k = show_nat m} \<le> fuel
   \<Longrightarrow> show_nat (getNextID_loop fuel ks n) \<notin> set ks"
proof (induction fuel arbitrary: n)
  case 0
  then have "{k \<in> set ks. \<exists>m\<ge>n. k = show_nat m} = {}" by simp
  then have "show_nat n \<notin> set ks" by blast
  then show ?case by simp
next
  case (Suc fuel)
  show ?case
  proof (cases "show_nat n \<in> set ks")
    case False
    then show ?thesis by simp
  next
    case True
    let ?S = "\<lambda>n. {k \<in> set ks. \<exists>m\<ge>n. k = show_nat m}"
    have "show_nat n \<in> ?S n" using True by blast
    moreover have "show_nat n \<notin> ?S (n + 1)" by (auto dest: show_nat_inj)
    moreover have "?S (n + 1) \<subseteq> ?S n"
    proof
      fix k assume "k \<in> ?S (n + 1)"
      then obtain m where "k \<in> set ks" and "n + 1 \<le> m" and "k = show_nat m" by auto
      then have "k \<in> set ks" and "n \<le> m \<and> k = show_nat m" by simp_all
      then show "k \<in> ?S n" by blast
    qed
    ultimately have "?S (n + 1) \<subset> ?S n" by blast
    then have "card (?S (n + 1)) < card (?S n)" by (intro psubset_card_mono) simp_all
    with Suc.prems have "card (?S (n + 1)) \<le> fuel" by simp
    from Suc.IH [OF this] True show ?thesis by simp
  qed
qed

lemma getNextID_loop_enough:
  "show_nat (getNextID_loop (length ks) ks n) \<notin> set ks"
proof -
  have "card {k \<in> set ks. \<exists>m\<ge>n. k = show_nat m} \<le> card (set ks)"
    by (intro card_mono) auto
  also have "\<dots> \<le> length ks" by (rule card_length)
  finally show ?thesis by (rule getNextID_loop_free)
qed

lemma getNextID_is_free:
  "fst (getNextID s) \<notin> set (keys s)"
  by (simp add: getNextID_def Let_def getNextID_loop_enough)







section \<open>A map keyed by its parent\<close>

text \<open>
  The heap of \<^verbatim>\<open>const a = []; const m = new Map([[a, 1]]); a.push(m)\<close>, with the array
  at address 0 and the map at address 1, and the tree the parser builds for \<open>a\<close>: the
  key of the entry is a reference back to the array, which is marked.
\<close>

definition keyed_by_parent_heap :: "jsobject list" where
  "keyed_by_parent_heap =
     [ArrayObj [Some (JObject 1)] FlagNone,
      MapObj [(JObject 0, JNumber (Finite 1))] FlagNone]"

definition keyed_by_parent :: node where
  "keyed_by_parent =
     ArrayNode 0 1 [Some (MapNode 1 [(IndexedValueNode 0, NumberNode 1)] 1)] FlagNone"

text \<open>
  Claim C1, at the failing input. The value is parsed without an error, and the
  emitted text is \<open>v0=[v1=new Map]\<close> with the patch \<open>v1.set(v1,1)\<close>: when the key of an
  entry is on the stack, \<open>serializeMapEntry\<close> takes the name of the map (\<open>getRefParam(id)\<close>)
  for the key, where the branch for a value on the stack takes the name of the value
  (\<open>getRefParam(val.i)\<close>). Evaluated, the text gives a map whose key is the map itself and
  not the array.
\<close>

theorem serialize_Map_keyed_by_parent:
  "parseSync 3 (example_penv ALL_FEATURES {}) (JObject 0) (initial_pstate keyed_by_parent_heap)
     = Inr (keyed_by_parent,
            \<lparr>heap = keyed_by_parent_heap, refs = [(0, 0), (1, 1)], pmarked = {0}\<rparr>)
   \<and> outcome (serialize (example_ctx ALL_FEATURES) keyed_by_parent (initial_sstate {0}))
     = Inr (''v0=[v1=new Map]'', [], [Assignment AssignSet ''v1'' (Some ''v1'') ''1''])"
  by code_simp

end
